theory Spec2Isabelle
  imports Main "HOL-Library.Word" "HOL-Library.Char_ord"
begin

unbundle bit_operations_syntax

section \<open>Hardware state and its environment\<close>

text \<open>
  The firmware runs on one thread and is preempted by one interrupt (SysTick). Its
  peripherals change registers behind its back: the tick interrupt increments
  \<open>msTicks\<close>, the USART receiver fills \<open>USART_RDR\<close> and raises RXNE (bit 5 of
  \<open>USART_ISR\<close>), the transmitter raises TXE (bit 7), the ADC refreshes \<open>ADC_DR\<close>.

  The registers the code touches are the fields of the record \<open>hw\<close>. What the
  hardware does asynchronously is a schedule \<open>env\<close>: the batch of events that happen
  before the \<open>k\<close>-th volatile read the program performs. The field \<open>now\<close> counts the
  volatile reads done so far. Every theorem below is about every schedule, hence about
  every interleaving of the program with its peripherals.

  \<open>tx_log\<close> is the sequence of bytes the program has written to \<open>USART_TDR\<close>,
  \<open>rx_log\<close> the sequence of bytes it has read from \<open>USART_RDR\<close>.
\<close>

type_synonym u8 = "8 word"
type_synonym u16 = "16 word"
type_synonym u32 = "32 word"

datatype event = Tick | RxByte char | TxEmpty | AdcSample u32

record hw =
  msTicks :: u32
  USART_ISR :: u32
  USART_RDR :: u32
  TIM2_CCR1 :: u32
  ADC_DR :: u32
  TEMP30_CAL :: u16
  tx_log :: string
  rx_log :: string
  now :: nat

type_synonym env = "nat \<Rightarrow> event list"

text \<open>system.c, \<open>SysTick_Handler\<close>: \<open>++msTicks\<close> on a \<open>uint32_t\<close>.\<close>

definition SysTick_Handler :: "hw \<Rightarrow> hw" where
  "SysTick_Handler s = s\<lparr>msTicks := msTicks s + 1\<rparr>"

text \<open>
  One hardware event. A byte that arrives while RXNE is still set is an overrun: the
  receive register keeps the older byte.
\<close>

fun hw_event :: "event \<Rightarrow> hw \<Rightarrow> hw" where
  "hw_event Tick s = SysTick_Handler s"
| "hw_event (RxByte b) s =
     (if USART_ISR s AND push_bit 5 1 = 0
      then s\<lparr>USART_RDR := of_char b, USART_ISR := USART_ISR s OR push_bit 5 1\<rparr>
      else s)"
| "hw_event TxEmpty s = s\<lparr>USART_ISR := USART_ISR s OR push_bit 7 1\<rparr>"
| "hw_event (AdcSample v) s = s\<lparr>ADC_DR := v\<rparr>"

text \<open>The events scheduled before the next volatile read happen, in order.\<close>

definition advance :: "env \<Rightarrow> hw \<Rightarrow> hw" where
  "advance env s = (fold hw_event (env (now s)) s)\<lparr>now := Suc (now s)\<rparr>"

text \<open>Number of tick interrupts in the batches \<open>a, ..., b - 1\<close> of a schedule.\<close>

definition ticks :: "env \<Rightarrow> nat \<Rightarrow> nat \<Rightarrow> nat" where
  "ticks env a b = (\<Sum>k = a..<b. count_list (env k) Tick)"

text \<open>The state after reset, as far as this development reads it (TXE and TC set).\<close>

definition hw_reset :: hw where
  "hw_reset = \<lparr>msTicks = 0, USART_ISR = 0xC0, USART_RDR = 0, TIM2_CCR1 = 0,
     ADC_DR = 0, TEMP30_CAL = 0, tx_log = [], rx_log = [], now = 0\<rparr>"

section \<open>system.c: the blocking delay\<close>

text \<open>
  \<open>delay_ms\<close> reads \<open>msTicks\<close> once into \<open>start_ticks\<close>, then re-reads it until
  \<open>(msTicks - start_ticks) < ms\<close> fails; the subtraction is on \<open>uint32_t\<close>. The loop
  may run forever, so it is a partial function: \<open>None\<close> is "never returns".
\<close>

partial_function (option) delay_loop :: "env \<Rightarrow> u32 \<Rightarrow> u32 \<Rightarrow> hw \<Rightarrow> hw option" where
  "delay_loop env start_ticks ms s =
     (let s' = advance env s in
      if msTicks s' - start_ticks < ms then delay_loop env start_ticks ms s' else Some s')"

declare delay_loop.simps [code]

definition delay_ms :: "env \<Rightarrow> u32 \<Rightarrow> hw \<Rightarrow> hw option" where
  "delay_ms env ms s =
     (let s0 = advance env s; start_ticks = msTicks s0
      in delay_loop env start_ticks ms s0)"

section \<open>pwm.c: the brightness output\<close>

definition set_led_brightness :: "u8 \<Rightarrow> hw \<Rightarrow> hw" where
  "set_led_brightness brightness s =
     (let brightness = (if brightness > 99 then 99 else brightness)
      in s\<lparr>TIM2_CCR1 := ucast brightness\<rparr>)"

section \<open>adc.c: the temperature conversion\<close>

text \<open>
  nucleo_conf.h declares the three constants as \<open>uint32_t\<close>. In
  \<open>(int32_t)adc_value * VDD_APPLI / VDD_CALIB - (int32_t)*TEMP30_CAL_ADDR) * 1000 / AVG_SLOPE + 30\<close>
  every operator therefore has an \<open>uint32_t\<close> operand, and C's usual arithmetic
  conversions make the other operand \<open>uint32_t\<close> too: the products and the difference
  wrap modulo \<open>2 ^ 32\<close> and both divisions are unsigned. The \<open>uint32_t\<close> result is
  returned as \<open>int32_t\<close>; callers read it with \<open>sint\<close>.
\<close>

definition VDD_CALIB :: u32 where "VDD_CALIB = 3300"
definition VDD_APPLI :: u32 where "VDD_APPLI = 3300"
definition AVG_SLOPE :: u32 where "AVG_SLOPE = 5336"

definition get_temperature :: "env \<Rightarrow> hw \<Rightarrow> u32 \<times> hw" where
  "get_temperature env s =
     (let s' = advance env s; adc_value = ADC_DR s'
      in ((adc_value * VDD_APPLI div VDD_CALIB - ucast (TEMP30_CAL s')) * 1000 div AVG_SLOPE + 30,
          s'))"

text \<open>
  The conversion as the specification words it: the same formula over the integers,
  every division truncating toward zero.
\<close>

definition trunc_div :: "int \<Rightarrow> int \<Rightarrow> int" where
  "trunc_div a b = sgn a * sgn b * (\<bar>a\<bar> div \<bar>b\<bar>)"

definition spec_temperature :: "int \<Rightarrow> int \<Rightarrow> int" where
  "spec_temperature raw cal30 =
     trunc_div ((trunc_div (raw * 3300) 3300 - cal30) * 1000) 5336 + 30"

section \<open>uart.c: the serial link\<close>

text \<open>\<open>uart_data_available\<close>: one read of \<open>USART_ISR\<close>, bit 5 (RXNE).\<close>

definition uart_data_available :: "env \<Rightarrow> hw \<Rightarrow> u8 \<times> hw" where
  "uart_data_available env s =
     (let s' = advance env s
      in (if USART_ISR s' AND push_bit 5 1 \<noteq> 0 then 1 else 0, s'))"

text \<open>
  \<open>uart_receive_char\<close>: reads \<open>USART_ISR\<close>; with RXNE set it reads \<open>USART_RDR\<close>
  (which clears RXNE) and returns its low byte, otherwise it returns 0.
\<close>

definition uart_receive_char :: "env \<Rightarrow> hw \<Rightarrow> char \<times> hw" where
  "uart_receive_char env s =
     (let s1 = advance env s
      in if USART_ISR s1 AND push_bit 5 1 \<noteq> 0
         then (let s2 = advance env s1; c = char_of (unat (USART_RDR s2))
               in (c, s2\<lparr>USART_ISR := USART_ISR s2 AND NOT (push_bit 5 1),
                        rx_log := rx_log s2 @ [c]\<rparr>))
         else (CHR 0x00, s1))"

text \<open>A write to \<open>USART_TDR\<close>: the byte goes out and the hardware clears TXE.\<close>

definition write_TDR :: "char \<Rightarrow> hw \<Rightarrow> hw" where
  "write_TDR c s = s\<lparr>tx_log := tx_log s @ [c], USART_ISR := USART_ISR s AND NOT (push_bit 7 1)\<rparr>"

text \<open>\<open>while (!(USART_ISR & (1 << 7)));\<close>\<close>

partial_function (option) wait_txe :: "env \<Rightarrow> hw \<Rightarrow> hw option" where
  "wait_txe env s =
     (let s' = advance env s in
      if USART_ISR s' AND push_bit 7 1 = 0 then wait_txe env s' else Some s')"

declare wait_txe.simps [code]

text \<open>\<open>uart_send_string\<close>: stops at the terminating NUL of the C string.\<close>

fun uart_send_string :: "env \<Rightarrow> string \<Rightarrow> hw \<Rightarrow> hw option" where
  "uart_send_string env [] s = Some s"
| "uart_send_string env (c # str) s =
     (if c = CHR 0x00 then Some s
      else case wait_txe env (write_TDR c s) of
             None \<Rightarrow> None
           | Some s' \<Rightarrow> uart_send_string env str s')"

section \<open>main.c: the command interpreter\<close>

definition CRLF :: string where
  "CRLF = [CHR 0x0D, CHR 0x0A]"

text \<open>
  \<open>sprintf\<close> belongs to the C library. Its \<open>%d\<close> and \<open>%ld\<close> conversions print a
  signed decimal numeral without leading zeros, which is what \<open>fmt_d\<close> computes.
\<close>

fun fmt_u :: "nat \<Rightarrow> string" where
  "fmt_u n = (if n < 10 then [char_of (48 + n)] else fmt_u (n div 10) @ [char_of (48 + n mod 10)])"

declare fmt_u.simps [simp del]

definition fmt_d :: "int \<Rightarrow> string" where
  "fmt_d i = (if i < 0 then CHR ''-'' # fmt_u (nat (- i)) else fmt_u (nat i))"

text \<open>main.c line 96: \<open>c >= '0' && c <= '9'\<close>.\<close>

definition is_digit :: "char \<Rightarrow> bool" where
  "is_digit c \<longleftrightarrow> CHR ''0'' \<le> c \<and> c \<le> CHR ''9''"

text \<open>
  main.c lines 86 to 106, the digit-collection loop. Its variables are the array
  \<open>brightness_str\<close>, the index \<open>idx\<close> and the hardware state. The condition
  \<open>idx < 2 && (msTicks - start_time) < 5000\<close> reads \<open>msTicks\<close> only when \<open>idx < 2\<close>.
\<close>

partial_function (option) collect_digits ::
    "env \<Rightarrow> u32 \<Rightarrow> string \<times> nat \<times> hw \<Rightarrow> (string \<times> nat \<times> hw) option" where
  "collect_digits env start_time st =
     (case st of (brightness_str, idx, s) \<Rightarrow>
        if idx < 2 then
          (let s1 = advance env s in
           if msTicks s1 - start_time < 5000 then
             (case uart_data_available env s1 of (avail, s2) \<Rightarrow>
                if avail \<noteq> 0 then
                  (case uart_receive_char env s2 of (c, s3) \<Rightarrow>
                     (case wait_txe env (write_TDR c s3) of
                        None \<Rightarrow> None
                      | Some s4 \<Rightarrow>
                          if is_digit c then
                            (case delay_ms env 5 s4 of
                               None \<Rightarrow> None
                             | Some s5 \<Rightarrow>
                                 collect_digits env start_time
                                   (brightness_str[idx := c], Suc idx, s5))
                          else Some (brightness_str, idx, s4)))
                else collect_digits env start_time (brightness_str, idx, s2))
           else Some (brightness_str, idx, s1))
        else Some (brightness_str, idx, s))"

declare collect_digits.simps [code]

text \<open>
  main.c lines 111 to 116: \<open>brightness = brightness * 10 + (brightness_str[i] - '0')\<close>
  for \<open>i = 0, ..., idx - 1\<close>; the right-hand side is an \<open>int\<close>, stored into a
  \<open>uint8_t\<close>.
\<close>

definition parse_brightness :: "string \<Rightarrow> nat \<Rightarrow> u8" where
  "parse_brightness brightness_str idx =
     fold (\<lambda>i brightness.
             word_of_int (uint brightness * 10 + (of_char (brightness_str ! i) - of_char CHR ''0'')))
       [0..<idx] 0"

text \<open>
  main.c lines 108 to 128: what follows the collection loop. The line \<open>sprintf\<close>
  builds is at most 31 bytes long with its terminating NUL and fits \<open>buffer[32]\<close>.
\<close>

definition finish_L_command :: "env \<Rightarrow> string \<times> nat \<times> hw \<Rightarrow> hw option" where
  "finish_L_command env st =
     (case st of (brightness_str, idx, s) \<Rightarrow>
        if idx > 0 then
          (let brightness = parse_brightness brightness_str idx;
               s' = set_led_brightness brightness s;
               buffer = CRLF @ ''LED brightness set to '' @ fmt_d (uint brightness) @ ''%'' @ CRLF
           in uart_send_string env buffer s')
        else uart_send_string env (''No digits received after L command'' @ CRLF) s)"

text \<open>main.c lines 76 to 129: the branch of the \<open>L\<close> command.\<close>

definition L_command :: "env \<Rightarrow> hw \<Rightarrow> hw option" where
  "L_command env s =
     (case uart_send_string env (''LED command received, waiting for digits...'' @ CRLF) s of
        None \<Rightarrow> None
      | Some s1 \<Rightarrow>
          (let s2 = advance env s1; start_time = msTicks s2
           in case collect_digits env start_time ([CHR 0x00, CHR 0x00, CHR 0x00], 0, s2) of
                None \<Rightarrow> None
              | Some st \<Rightarrow> finish_L_command env st))"

text \<open>
  main.c lines 62 to 74: the branch of the \<open>T\<close> command. \<open>!x\<close> on the \<open>uint8_t\<close>
  flag is 1 for 0 and 0 otherwise.
\<close>

definition T_command :: "env \<Rightarrow> u8 \<times> hw \<Rightarrow> (u8 \<times> hw) option" where
  "T_command env st =
     (case st of (temp_reading_active, s) \<Rightarrow>
        (let temp_reading_active = (if temp_reading_active = 0 then 1 else 0 :: u8)
         in case (if temp_reading_active \<noteq> 0
                  then uart_send_string env (''Temperature reading ON'' @ CRLF) s
                  else uart_send_string env (''Temperature reading OFF'' @ CRLF) s) of
              None \<Rightarrow> None
            | Some s' \<Rightarrow> Some (temp_reading_active, s')))"

text \<open>main.c lines 57 to 130: poll the receiver and dispatch on the byte.\<close>

definition dispatch :: "env \<Rightarrow> char \<Rightarrow> u8 \<times> hw \<Rightarrow> (u8 \<times> hw) option" where
  "dispatch env received_char st =
     (if received_char = CHR ''T'' \<or> received_char = CHR ''t'' then T_command env st
      else if received_char = CHR ''L'' \<or> received_char = CHR ''l'' then
        (case L_command env (snd st) of None \<Rightarrow> None | Some s' \<Rightarrow> Some (fst st, s'))
      else Some st)"

definition poll_command :: "env \<Rightarrow> u8 \<times> hw \<Rightarrow> (u8 \<times> hw) option" where
  "poll_command env st =
     (case st of (temp_reading_active, s) \<Rightarrow>
        (case uart_data_available env s of (avail, s1) \<Rightarrow>
           if avail \<noteq> 0 then
             (case uart_receive_char env s1 of (received_char, s2) \<Rightarrow>
                dispatch env received_char (temp_reading_active, s2))
           else Some (temp_reading_active, s1)))"

text \<open>main.c lines 133 to 141: the periodic temperature line.\<close>

definition report_temperature :: "env \<Rightarrow> u8 \<times> hw \<Rightarrow> (u8 \<times> hw) option" where
  "report_temperature env st =
     (case st of (temp_reading_active, s) \<Rightarrow>
        if temp_reading_active \<noteq> 0 then
          (case get_temperature env s of (temperature, s1) \<Rightarrow>
             (case uart_send_string env (''Temp: '' @ fmt_d (sint temperature) @ '' degC'' @ CRLF) s1 of
                None \<Rightarrow> None
              | Some s2 \<Rightarrow>
                  (case delay_ms env 1000 s2 of
                     None \<Rightarrow> None
                   | Some s3 \<Rightarrow> Some (temp_reading_active, s3))))
        else Some st)"

text \<open>One pass through the body of \<open>while (1)\<close>, and the flag's initial value (line 46).\<close>

definition main_iteration :: "env \<Rightarrow> u8 \<times> hw \<Rightarrow> (u8 \<times> hw) option" where
  "main_iteration env st =
     (case poll_command env st of None \<Rightarrow> None | Some st' \<Rightarrow> report_temperature env st')"

definition temp_reading_active_init :: u8 where
  "temp_reading_active_init = 0"

section \<open>Notions the statements use\<close>

text \<open>
  \<open>ticked env s s'\<close>: between \<open>s\<close> and \<open>s'\<close> the counter moved by exactly the tick
  interrupts the schedule delivered, and the calibration word did not change.
\<close>

definition ticked :: "env \<Rightarrow> hw \<Rightarrow> hw \<Rightarrow> bool" where
  "ticked env s s' \<longleftrightarrow>
     now s \<le> now s' \<and> msTicks s' = msTicks s + of_nat (ticks env (now s) (now s'))
     \<and> TEMP30_CAL s' = TEMP30_CAL s"

text \<open>
  The assumptions on the hardware under which the blocking loops return: the
  transmitter keeps reporting an empty data register, tick interrupts keep occurring,
  and the program polls at least once per tick.
\<close>

definition txe_fair :: "env \<Rightarrow> bool" where
  "txe_fair env \<longleftrightarrow> (\<forall>n. \<exists>m\<ge>n. TxEmpty \<in> set (env m))"

definition tick_fair :: "env \<Rightarrow> bool" where
  "tick_fair env \<longleftrightarrow>
     (\<forall>k. count_list (env k) Tick \<le> 1) \<and> (\<forall>n. \<exists>m\<ge>n. Tick \<in> set (env m))"

text \<open>No byte ever arrives at the receiver.\<close>

definition rx_silent :: "env \<Rightarrow> bool" where
  "rx_silent env \<longleftrightarrow> (\<forall>n b. RxByte b \<notin> set (env n))"

text \<open>The array \<open>brightness_str\<close> after the bytes \<open>cs\<close> were stored from index \<open>idx\<close> on.\<close>

fun store :: "string \<Rightarrow> nat \<Rightarrow> string \<Rightarrow> string" where
  "store str idx [] = str"
| "store str idx (c # cs) = store (str[idx := c]) (Suc idx) cs"

text \<open>
  What an exit of the digit-collection loop looks like: the loop consumed the bytes
  \<open>ds @ t\<close>, echoed each of them, and stored the digits \<open>ds\<close>; \<open>t\<close> is empty, or is
  the one byte that was not a digit and ended the loop.
\<close>

definition collect_post ::
    "env \<Rightarrow> u32 \<Rightarrow> string \<times> nat \<times> hw \<Rightarrow> string \<times> nat \<times> hw \<Rightarrow> string \<Rightarrow> string \<Rightarrow> bool" where
  "collect_post env start_time st r ds t \<longleftrightarrow>
     (case st of (str, idx, s) \<Rightarrow> case r of (str', idx', s') \<Rightarrow>
        rx_log s' = rx_log s @ ds @ t \<and> tx_log s' = tx_log s @ ds @ t
        \<and> list_all is_digit ds
        \<and> idx' = idx + length ds \<and> idx' \<le> max idx 2 \<and> str' = store str idx ds
        \<and> TIM2_CCR1 s' = TIM2_CCR1 s \<and> ticked env s s'
        \<and> (if t = [] then 2 \<le> idx' \<or> 5000 \<le> msTicks s' - start_time
            else idx' < 2 \<and> length t = 1 \<and> \<not> is_digit (hd t)))"

text \<open>The decimal numeral \<open>ds\<close> read left to right in base 10, as the specification words it.\<close>

definition decimal_value :: "string \<Rightarrow> nat" where
  "decimal_value ds = foldl (\<lambda>n c. 10 * n + (of_char c - 48)) 0 ds"

text \<open>
  What a return of the \<open>L\<close> branch looks like: it consumed the digits \<open>ds\<close> and
  perhaps one more byte \<open>t\<close>, and wrote the prompt, the echo of what it consumed and
  one closing line.
\<close>

definition L_prompt :: string where
  "L_prompt = ''LED command received, waiting for digits...'' @ CRLF"

definition L_post :: "env \<Rightarrow> hw \<Rightarrow> hw \<Rightarrow> string \<Rightarrow> string \<Rightarrow> bool" where
  "L_post env s s' ds t \<longleftrightarrow>
     rx_log s' = rx_log s @ ds @ t \<and> list_all is_digit ds \<and> length ds \<le> 2
     \<and> (t = [] \<or> (length t = 1 \<and> \<not> is_digit (hd t) \<and> length ds < 2))
     \<and> ticked env s s'
     \<and> (if ds = []
         then TIM2_CCR1 s' = TIM2_CCR1 s
              \<and> tx_log s' = tx_log s @ L_prompt @ t @ ''No digits received after L command'' @ CRLF
         else TIM2_CCR1 s' = of_nat (decimal_value ds)
              \<and> tx_log s' = tx_log s @ L_prompt @ ds @ t @ CRLF @ ''LED brightness set to ''
                    @ fmt_u (decimal_value ds) @ ''%'' @ CRLF)"

text \<open>
  Schedules for the scenarios of the specification. The transmitter is ready again
  before every read and, but for the first batches, a tick arrives before every read;
  the bytes of the input arrive in the batches named. In \<open>env_idle\<close> no byte arrives.
\<close>

definition env_L99 :: env where
  "env_L99 n = (if n = 0 then [RxByte CHR ''L'']
                else if n = 3 then [TxEmpty, RxByte CHR ''9'']
                else if n = 60 then [Tick, TxEmpty, RxByte CHR ''9'']
                else [Tick, TxEmpty])"

definition env_L5 :: env where
  "env_L5 n = (if n = 0 then [RxByte CHR ''L'']
               else if n = 3 then [TxEmpty, RxByte CHR ''5'']
               else if n = 60 then [Tick, TxEmpty, RxByte CHR 0x0A]
               else [Tick, TxEmpty])"

definition env_LX :: env where
  "env_LX n = (if n = 0 then [RxByte CHR ''L'']
               else if n = 3 then [TxEmpty, RxByte CHR ''X'']
               else [Tick, TxEmpty])"

definition env_TT :: env where
  "env_TT n = (if n = 0 then [RxByte CHR ''T'']
               else if n = 10 then [Tick, TxEmpty, RxByte CHR ''t'']
               else [Tick, TxEmpty])"

definition env_idle :: env where
  "env_idle n = [Tick, TxEmpty]"


text \<open>
  The scenarios start from \<open>hw_boot\<close>, the reset state with the duty cycle at 37;
  \<open>hw_L\<close> is the state in which the \<open>L\<close> branch is entered there, after the byte
  \<open>L\<close> was read.
\<close>

definition hw_L :: hw where
  "hw_L = \<lparr>msTicks = 2, USART_ISR = 0xC0, USART_RDR = 0x4C, TIM2_CCR1 = 37,
     ADC_DR = 0, TEMP30_CAL = 0, tx_log = [], rx_log = ''L'', now = 3\<rparr>"

definition hw_boot :: hw where
  "hw_boot = hw_reset\<lparr>TIM2_CCR1 := 37\<rparr>"



section \<open>The environment: frame facts\<close>

lemma hw_event_frame:
  "now (hw_event e s) = now s" "tx_log (hw_event e s) = tx_log s"
  "TIM2_CCR1 (hw_event e s) = TIM2_CCR1 s" "TEMP30_CAL (hw_event e s) = TEMP30_CAL s"
  "rx_log (hw_event e s) = rx_log s"
  by (cases e; simp add: SysTick_Handler_def)+

lemma msTicks_hw_event: "msTicks (hw_event e s) = msTicks s + of_nat (count_list [e] Tick)"
  by (cases e) (simp_all add: SysTick_Handler_def)

lemma fold_hw_event_frame:
  "now (fold hw_event es s) = now s" "tx_log (fold hw_event es s) = tx_log s"
  "TIM2_CCR1 (fold hw_event es s) = TIM2_CCR1 s" "TEMP30_CAL (fold hw_event es s) = TEMP30_CAL s"
  "rx_log (fold hw_event es s) = rx_log s"
  by (induction es arbitrary: s; simp add: hw_event_frame)+

lemma msTicks_fold_hw_event:
  "msTicks (fold hw_event es s) = msTicks s + of_nat (count_list es Tick)"
  by (induction es arbitrary: s) (simp_all add: msTicks_hw_event)

lemma advance_frame:
  "now (advance env s) = Suc (now s)" "tx_log (advance env s) = tx_log s"
  "TIM2_CCR1 (advance env s) = TIM2_CCR1 s" "TEMP30_CAL (advance env s) = TEMP30_CAL s"
  "rx_log (advance env s) = rx_log s"
  by (simp_all add: advance_def fold_hw_event_frame)

lemma msTicks_advance:
  "msTicks (advance env s) = msTicks s + of_nat (count_list (env (now s)) Tick)"
  by (simp add: advance_def msTicks_fold_hw_event)

lemma delay_loop_exit:
  assumes "delay_loop env st ms s = Some s'"
  shows "\<exists>n. s' = (advance env ^^ Suc n) s \<and> ms \<le> msTicks s' - st
           \<and> (\<forall>i. 1 \<le> i \<and> i \<le> n \<longrightarrow> msTicks ((advance env ^^ i) s) - st < ms)"
proof (rule delay_loop.raw_induct[where P = "\<lambda>env st ms s s'. \<exists>n. s' = (advance env ^^ Suc n) s \<and> ms \<le> msTicks s' - st
           \<and> (\<forall>i. 1 \<le> i \<and> i \<le> n \<longrightarrow> msTicks ((advance env ^^ i) s) - st < ms)", OF _ assms], goal_cases)
  case (1 f e t m x y)
  show ?case
  proof (cases "msTicks (advance e x) - t < m")
    case False
    with 1(2) have "y = advance e x" by (simp add: Let_def)
    with False have "y = (advance e ^^ Suc 0) x \<and> m \<le> msTicks y - t
           \<and> (\<forall>i. 1 \<le> i \<and> i \<le> 0 \<longrightarrow> msTicks ((advance e ^^ i) x) - t < m)" by simp
    then show ?thesis by blast
  next
    case True
    with 1(2) have "f e t m (advance e x) = Some y" by (simp add: Let_def)
    from 1(1)[OF this] obtain n where n: "y = (advance e ^^ Suc n) (advance e x)"
      "m \<le> msTicks y - t"
      "\<forall>i. 1 \<le> i \<and> i \<le> n \<longrightarrow> msTicks ((advance e ^^ i) (advance e x)) - t < m"
      by blast
    have "\<forall>i. 1 \<le> i \<and> i \<le> Suc n \<longrightarrow> msTicks ((advance e ^^ i) x) - t < m"
    proof (intro allI impI)
      fix i assume i: "1 \<le> i \<and> i \<le> Suc n"
      then obtain j where j: "i = Suc j" by (cases i) auto
      show "msTicks ((advance e ^^ i) x) - t < m"
      proof (cases j)
        case 0 with j True show ?thesis by simp
      next
        case (Suc k)
        with i j have "1 \<le> j \<and> j \<le> n" by simp
        with n(3) have "msTicks ((advance e ^^ j) (advance e x)) - t < m" by blast
        then show ?thesis using j by (simp add: funpow_swap1)
      qed
    qed
    with n(1,2) have "y = (advance e ^^ Suc (Suc n)) x \<and> m \<le> msTicks y - t
           \<and> (\<forall>i. 1 \<le> i \<and> i \<le> Suc n \<longrightarrow> msTicks ((advance e ^^ i) x) - t < m)"
      by (simp add: funpow_swap1)
    then show ?thesis by blast
  qed
qed

lemma ticks_same [simp]: "ticks env a a = 0"
  by (simp add: ticks_def)

lemma ticks_Suc: "a \<le> b \<Longrightarrow> ticks env a (Suc b) = ticks env a b + count_list (env b) Tick"
  by (simp add: ticks_def)

lemma ticks_split: "a \<le> b \<Longrightarrow> b \<le> c \<Longrightarrow> ticks env a c = ticks env a b + ticks env b c"
  unfolding ticks_def by (metis sum.atLeastLessThan_concat)

lemma ticks_step: "a < b \<Longrightarrow> ticks env a b = count_list (env a) Tick + ticks env (Suc a) b"
  by (simp add: ticks_def sum.atLeast_Suc_lessThan)

lemma fair_ticks:
  assumes "\<forall>n. \<exists>m\<ge>n. Tick \<in> set (env m)"
  shows "\<exists>m\<ge>n. r \<le> ticks env n m"
proof (induction r)
  case 0 show ?case by (intro exI[of _ n]) simp
next
  case (Suc r)
  then obtain m where m: "m \<ge> n" "r \<le> ticks env n m" by blast
  from assms obtain k where k: "k \<ge> m" "Tick \<in> set (env k)" by blast
  then have "count_list (env k) Tick > 0" by (metis count_list_0_iff not_gr_zero)
  moreover have "ticks env n (Suc k) = ticks env n m + ticks env m k + count_list (env k) Tick"
    using m k by (simp add: ticks_Suc ticks_split[of n m k])
  ultimately have "Suc r \<le> ticks env n (Suc k)" using m by simp
  with m k show ?case by (intro exI[of _ "Suc k"]) simp
qed

lemma delay_loop_terminates:
  assumes one: "\<forall>k. count_list (env k) Tick \<le> 1"
  shows "unat (msTicks s - st) < unat ms \<Longrightarrow> unat ms - unat (msTicks s - st) \<le> ticks env (now s) (now s + d)
     \<Longrightarrow> \<exists>s'. delay_loop env st ms s = Some s' \<and> msTicks s' - st = ms"
proof (induction d arbitrary: s)
  case 0 then show ?case by simp
next
  case (Suc d)
  let ?s1 = "advance env s"
  let ?c = "count_list (env (now s)) Tick"
  have c: "?c \<le> 1" using one by blast
  have m1: "msTicks ?s1 - st = (msTicks s - st) + of_nat ?c" by (simp add: msTicks_advance)
  have lt: "unat (msTicks s - st) + ?c < 2 ^ 32"
    using Suc.prems(1) c unsigned_less[of ms, where 'a=nat] by simp
  have u1: "unat (msTicks ?s1 - st) = unat (msTicks s - st) + ?c"
    unfolding m1 using lt by (simp add: unat_word_ariths unat_of_nat)
  show ?case
  proof (cases "msTicks ?s1 - st < ms")
    case False
    then have "unat ms \<le> unat (msTicks ?s1 - st)" by (simp add: word_less_nat_alt)
    with u1 Suc.prems(1) c have "unat (msTicks ?s1 - st) = unat ms" by simp
    then have "msTicks ?s1 - st = ms" by (simp add: word_unat_eq_iff)
    with False show ?thesis by (subst delay_loop.simps) (simp add: Let_def)
  next
    case True
    then have a: "unat (msTicks ?s1 - st) < unat ms" by (simp add: word_less_nat_alt)
    have "ticks env (now s) (now s + Suc d) = ?c + ticks env (now ?s1) (now ?s1 + d)"
      by (simp add: ticks_step advance_frame)
    with Suc.prems(2) u1 have b: "unat ms - unat (msTicks ?s1 - st) \<le> ticks env (now ?s1) (now ?s1 + d)"
      by simp
    from Suc.IH[OF a b] True show ?thesis by (subst delay_loop.simps) (simp add: Let_def)
  qed
qed

lemma delay_ms_terminates:
  assumes one: "\<forall>k. count_list (env k) Tick \<le> 1" and fair: "\<forall>n. \<exists>m\<ge>n. Tick \<in> set (env m)"
  shows "\<exists>s'. delay_ms env ms s = Some s' \<and> (0 < ms \<longrightarrow> msTicks s' - msTicks (advance env s) = ms)"
proof (cases "ms = 0")
  case True
  then show ?thesis by (simp add: delay_ms_def Let_def delay_loop.simps[of env _ 0])
next
  case False
  let ?s0 = "advance env s"
  from fair_ticks[OF fair, of "now ?s0" "unat ms"] obtain m where m: "m \<ge> now ?s0" "unat ms \<le> ticks env (now ?s0) m" by blast
  then have "unat ms - unat (msTicks ?s0 - msTicks ?s0) \<le> ticks env (now ?s0) (now ?s0 + (m - now ?s0))" by simp
  moreover have "unat (msTicks ?s0 - msTicks ?s0) < unat ms" using False by (simp add: unat_gt_0)
  ultimately show ?thesis using delay_loop_terminates[OF one, of ?s0 "msTicks ?s0" ms "m - now ?s0"]
    by (auto simp: delay_ms_def Let_def)
qed


section \<open>The serial link and the collection loop: what a return implies\<close>

lemma ticked_refl [simp]: "ticked env s s"
  by (simp add: ticked_def)

lemma ticked_trans: "ticked env s s' \<Longrightarrow> ticked env s' s'' \<Longrightarrow> ticked env s s''"
  by (auto simp: ticked_def ticks_split[of "now s" "now s'" "now s''"])

lemma ticked_advance: "ticked env s (advance env s)"
  by (simp add: ticked_def advance_frame msTicks_advance ticks_Suc)

lemma ticked_same:
  "now s'' = now s' \<Longrightarrow> msTicks s'' = msTicks s' \<Longrightarrow> TEMP30_CAL s'' = TEMP30_CAL s'
     \<Longrightarrow> ticked env s s' \<Longrightarrow> ticked env s s''"
  by (simp add: ticked_def)

lemma ticked_funpow: "ticked env s ((advance env ^^ n) s)"
  by (induction n) (auto intro: ticked_trans ticked_advance)

lemma funpow_advance_frame:
  "tx_log ((advance env ^^ n) s) = tx_log s" "TIM2_CCR1 ((advance env ^^ n) s) = TIM2_CCR1 s"
  "rx_log ((advance env ^^ n) s) = rx_log s"
  by (induction n; simp add: advance_frame)+

lemma txe_bit: "w AND 128 = 0 \<longleftrightarrow> \<not> bit (w::u32) 7"
  using and_exp_eq_0_iff_not_bit[of w 7] by simp

lemma rxne_bit: "w AND 32 = 0 \<longleftrightarrow> \<not> bit (w::u32) 5"
  using and_exp_eq_0_iff_not_bit[of w 5] by simp

lemma hw_event_keeps_txe: "bit (USART_ISR s) 7 \<Longrightarrow> bit (USART_ISR (hw_event e s)) 7"
  by (cases e) (simp_all add: SysTick_Handler_def bit_or_iff)

lemma fold_hw_event_keeps_txe: "bit (USART_ISR s) 7 \<Longrightarrow> bit (USART_ISR (fold hw_event es s)) 7"
  by (induction es arbitrary: s) (simp_all add: hw_event_keeps_txe)

lemma fold_hw_event_sets_txe: "TxEmpty \<in> set es \<Longrightarrow> bit (USART_ISR (fold hw_event es s)) 7"
proof (induction es arbitrary: s)
  case Nil then show ?case by simp
next
  case (Cons e es)
  show ?case
  proof (cases "e = TxEmpty")
    case True
    then have "bit (USART_ISR (hw_event e s)) 7" by (simp add: bit_or_iff push_bit_of_1 bit_exp_iff)
    then show ?thesis by (simp add: fold_hw_event_keeps_txe)
  next
    case False
    with Cons.prems have "TxEmpty \<in> set es" by auto
    then show ?thesis by (simp add: Cons.IH)
  qed
qed

lemma USART_ISR_advance: "USART_ISR (advance env s) = USART_ISR (fold hw_event (env (now s)) s)"
  by (simp add: advance_def)

lemma wait_txe_exit:
  assumes "wait_txe env s = Some s'"
  shows "\<exists>n. s' = (advance env ^^ Suc n) s"
proof (rule wait_txe.raw_induct[where P = "\<lambda>env s s'. \<exists>n. s' = (advance env ^^ Suc n) s", OF _ assms], goal_cases)
  case (1 f e x y)
  show ?case
  proof (cases "USART_ISR (advance e x) AND push_bit 7 1 = 0")
    case False
    with 1(2) have "y = (advance e ^^ Suc 0) x" by (simp add: Let_def)
    then show ?thesis by blast
  next
    case True
    with 1(2) have "f e (advance e x) = Some y" by (simp add: Let_def)
    from 1(1)[OF this] obtain n where "y = (advance e ^^ Suc n) (advance e x)" by blast
    then have "y = (advance e ^^ Suc (Suc n)) x" by (simp add: funpow_swap1)
    then show ?thesis by blast
  qed
qed

lemma wait_txe_terminates_aux:
  "TxEmpty \<in> set (env (now s + d)) \<Longrightarrow> \<exists>s'. wait_txe env s = Some s'"
proof (induction d arbitrary: s)
  case 0
  then have "bit (USART_ISR (advance env s)) 7"
    by (simp add: USART_ISR_advance fold_hw_event_sets_txe)
  then show ?case by (subst wait_txe.simps) (simp add: Let_def txe_bit)
next
  case (Suc d)
  then have "TxEmpty \<in> set (env (now (advance env s) + d))" by (simp add: advance_frame)
  from Suc.IH[OF this] show ?case by (subst wait_txe.simps) (simp add: Let_def)
qed

lemma wait_txe_terminates: "txe_fair env \<Longrightarrow> \<exists>s'. wait_txe env s = Some s'"
proof -
  assume "txe_fair env"
  then obtain m where "m \<ge> now s" "TxEmpty \<in> set (env m)" unfolding txe_fair_def by blast
  then have "TxEmpty \<in> set (env (now s + (m - now s)))" by simp
  then show ?thesis by (rule wait_txe_terminates_aux)
qed

lemma wait_txe_frame:
  assumes "wait_txe env s = Some s'"
  shows "tx_log s' = tx_log s" "TIM2_CCR1 s' = TIM2_CCR1 s" "rx_log s' = rx_log s" "ticked env s s'"
  using wait_txe_exit[OF assms] by (auto simp: funpow_advance_frame advance_frame funpow_swap1 intro: ticked_funpow ticked_trans ticked_advance)

lemma delay_ms_frame:
  assumes "delay_ms env ms s = Some s'"
  shows "tx_log s' = tx_log s" "TIM2_CCR1 s' = TIM2_CCR1 s" "rx_log s' = rx_log s" "ticked env s s'"
proof -
  from assms have "delay_loop env (msTicks (advance env s)) ms (advance env s) = Some s'"
    by (simp add: delay_ms_def Let_def)
  from delay_loop_exit[OF this] obtain n where n: "s' = (advance env ^^ Suc n) (advance env s)" by blast
  show "tx_log s' = tx_log s" "TIM2_CCR1 s' = TIM2_CCR1 s" "rx_log s' = rx_log s"
    unfolding n by (simp_all add: funpow_advance_frame advance_frame)
  show "ticked env s s'" unfolding n
    by (rule ticked_trans[OF ticked_advance ticked_funpow])
qed

lemma write_TDR_frame:
  "tx_log (write_TDR c s) = tx_log s @ [c]" "TIM2_CCR1 (write_TDR c s) = TIM2_CCR1 s"
  "rx_log (write_TDR c s) = rx_log s" "ticked env s (write_TDR c s)"
  by (simp_all add: write_TDR_def ticked_def)

lemma uart_send_string_exit:
  "uart_send_string env str s = Some s' \<Longrightarrow>
     tx_log s' = tx_log s @ takeWhile (\<lambda>c. c \<noteq> CHR 0x00) str \<and> TIM2_CCR1 s' = TIM2_CCR1 s
     \<and> rx_log s' = rx_log s \<and> ticked env s s'"
proof (induction str arbitrary: s)
  case Nil then show ?case by simp
next
  case (Cons c str)
  show ?case
  proof (cases "c = CHR 0x00")
    case True with Cons.prems show ?thesis by simp
  next
    case False
    with Cons.prems obtain s1 where s1: "wait_txe env (write_TDR c s) = Some s1"
      "uart_send_string env str s1 = Some s'" by (auto split: option.splits)
    have "ticked env s (write_TDR c s)" by (rule write_TDR_frame)
    with wait_txe_frame[OF s1(1)] Cons.IH[OF s1(2)] False show ?thesis
      by (auto simp: write_TDR_frame(1-3) intro: ticked_trans)
  qed
qed

lemma uart_send_string_terminates:
  "txe_fair env \<Longrightarrow> \<exists>s'. uart_send_string env str s = Some s'"
proof (induction str arbitrary: s)
  case Nil then show ?case by simp
next
  case (Cons c str)
  from wait_txe_terminates[OF Cons.prems, of "write_TDR c s"] obtain s1 where "wait_txe env (write_TDR c s) = Some s1" by blast
  with Cons.IH[OF Cons.prems, of s1] show ?case by auto
qed


lemma hw_event_keeps_rxne: "bit (USART_ISR s) 5 \<Longrightarrow> bit (USART_ISR (hw_event e s)) 5"
  by (cases e) (simp_all add: SysTick_Handler_def bit_or_iff rxne_bit)

lemma fold_hw_event_keeps_rxne: "bit (USART_ISR s) 5 \<Longrightarrow> bit (USART_ISR (fold hw_event es s)) 5"
  by (induction es arbitrary: s) (simp_all add: hw_event_keeps_rxne)

lemma advance_keeps_rxne:
  "USART_ISR s AND push_bit 5 1 \<noteq> 0 \<Longrightarrow> USART_ISR (advance env s) AND push_bit 5 1 \<noteq> 0"
  by (simp add: rxne_bit USART_ISR_advance fold_hw_event_keeps_rxne)

text \<open>With RXNE set, \<open>uart_receive_char\<close> consumes a byte: it is the one it returns.\<close>

lemma uart_receive_char_consumes:
  assumes "USART_ISR s AND push_bit 5 1 \<noteq> 0" and "uart_receive_char env s = (c, s')"
  shows "rx_log s' = rx_log s @ [c]" "tx_log s' = tx_log s" "TIM2_CCR1 s' = TIM2_CCR1 s"
    "ticked env s s'"
proof -
  let ?s1 = "advance env s"
  let ?s2 = "advance env ?s1"
  let ?c = "char_of (unat (USART_RDR ?s2))"
  let ?s3 = "?s2\<lparr>USART_ISR := USART_ISR ?s2 AND NOT (push_bit 5 1), rx_log := rx_log ?s2 @ [?c]\<rparr>"
  from assms(1) have "USART_ISR ?s1 AND push_bit 5 1 \<noteq> 0" by (rule advance_keeps_rxne)
  with assms(2) have r: "c = ?c" "s' = ?s3"
    by (auto simp: uart_receive_char_def Let_def)
  have "ticked env s ?s3"
    by (rule ticked_same[OF _ _ _ ticked_trans[OF ticked_advance ticked_advance]]) simp_all
  then show "ticked env s s'" by (simp add: r)
  show "rx_log s' = rx_log s @ [c]" "tx_log s' = tx_log s" "TIM2_CCR1 s' = TIM2_CCR1 s"
    by (simp_all add: r advance_frame)
qed

lemma collect_digits_exit:
  assumes "collect_digits env start st = Some r"
  shows "\<exists>ds t. collect_post env start st r ds t"
proof (rule collect_digits.raw_induct[where P = "\<lambda>env start st r. \<exists>ds t. collect_post env start st r ds t", OF _ assms], goal_cases)
  case (1 f e st0 st r)
  obtain str idx s where st: "st = (str, idx, s)" by (cases st)
  obtain str' idx' s' where r: "r = (str', idx', s')" by (cases r)
  let ?s1 = "advance e s"
  let ?s2 = "advance e ?s1"
  show ?case
  proof (cases "idx < 2")
    case False
    with 1(2) st r have "r = st" by simp
    with False st show ?thesis
      by (intro exI[of _ "[]"]) (simp add: collect_post_def)
  next
    case idx: True
    show ?thesis
    proof (cases "msTicks ?s1 - st0 < 5000")
      case False
      with 1(2) st idx have "r = (str, idx, ?s1)" by (simp add: Let_def)
      with False idx st show ?thesis
        by (intro exI[of _ "[]"]) (simp add: collect_post_def advance_frame ticked_advance not_less)
    next
      case time: True
      have t2: "ticked e s ?s2" by (rule ticked_trans[OF ticked_advance ticked_advance])
      show ?thesis
      proof (cases "USART_ISR ?s2 AND push_bit 5 1 \<noteq> 0")
        case False
        with 1(2) st idx time have "f e st0 (str, idx, ?s2) = Some r"
          by (simp add: Let_def uart_data_available_def)
        from 1(1)[OF this] obtain ds t where "collect_post e st0 (str, idx, ?s2) r ds t" by blast
        then have "collect_post e st0 st r ds t"
          using t2 by (auto simp: collect_post_def st r advance_frame intro: ticked_trans)
        then show ?thesis by blast
      next
        case avail: True
        obtain c s3 where rc: "uart_receive_char e ?s2 = (c, s3)" by (cases "uart_receive_char e ?s2")
        from avail 1(2) st idx time rc obtain s4 where s4: "wait_txe e (write_TDR c s3) = Some s4"
          by (auto simp: Let_def uart_data_available_def split: option.splits)
        note f3 = uart_receive_char_consumes[OF avail rc]
        note f4 = wait_txe_frame[OF s4]
        have t4: "ticked e s s4"
          using t2 f3(4) f4(4) write_TDR_frame(4) by (meson ticked_trans)
        have x4: "tx_log s4 = tx_log s @ [c]" "TIM2_CCR1 s4 = TIM2_CCR1 s" "rx_log s4 = rx_log s @ [c]"
          using f3 f4 by (simp_all add: write_TDR_frame(1-3) advance_frame)
        show ?thesis
        proof (cases "is_digit c")
          case False
          with avail 1(2) st idx time rc s4 have "r = (str, idx, s4)"
            by (simp add: Let_def uart_data_available_def)
          with False idx st x4 t4 have "collect_post e st0 st r [] [c]"
            by (simp add: collect_post_def)
          then show ?thesis by blast
        next
          case dig: True
          with avail 1(2) st idx time rc s4 obtain s5 where s5: "delay_ms e 5 s4 = Some s5"
            and rec: "f e st0 (str[idx := c], Suc idx, s5) = Some r"
            by (auto simp: Let_def uart_data_available_def split: option.splits)
          note f5 = delay_ms_frame[OF s5]
          from 1(1)[OF rec] obtain ds t where "collect_post e st0 (str[idx := c], Suc idx, s5) r ds t" by blast
          then have "collect_post e st0 st r (c # ds) t"
            using dig idx x4 f5 t4 by (auto simp: collect_post_def st r intro: ticked_trans)
          then show ?thesis by blast
        qed
      qed
    qed
  qed
qed

section \<open>Parsing, the end of the \<open>L\<close> command, and termination of the collection loop\<close>

lemma is_digit_iff: "is_digit c \<longleftrightarrow> 48 \<le> (of_char c :: nat) \<and> (of_char c :: nat) \<le> 57"
  by (simp add: is_digit_def less_eq_char_def)

lemma digit_step:
  assumes "is_digit c" and "unat (b::u8) \<le> 9"
  shows "(word_of_int (uint b * 10 + (of_char c - of_char CHR ''0'')) :: u8)
           = of_nat (10 * unat b + (of_char c - 48))"
    and "10 * unat b + (of_char c - 48) \<le> 99"
proof -
  from assms(1) have c: "48 \<le> (of_char c :: nat)" "(of_char c :: nat) \<le> 57"
    by (simp_all add: is_digit_iff)
  have "(of_char c :: int) = int (of_char c)" by (simp add: of_nat_of_char)
  with c have "uint b * 10 + (of_char c - of_char CHR ''0'') = int (10 * unat b + (of_char c - 48))"
    by simp
  then show "(word_of_int (uint b * 10 + (of_char c - of_char CHR ''0'')) :: u8)
           = of_nat (10 * unat b + (of_char c - 48))"
    by (simp only: of_int_of_nat_eq)
  from c assms(2) show "10 * unat b + (of_char c - 48) \<le> 99" by simp
qed

lemma parse_brightness_one:
  assumes "is_digit a"
  shows "parse_brightness (store [x, y, z] 0 [a]) 1 = of_nat (decimal_value [a])"
    and "decimal_value [a] \<le> 9"
proof -
  from assms have c: "48 \<le> (of_char a :: nat)" "(of_char a :: nat) \<le> 57"
    by (simp_all add: is_digit_iff)
  then show "decimal_value [a] \<le> 9" by (simp add: decimal_value_def)
  from digit_step(1)[OF assms, of 0] show "parse_brightness (store [x, y, z] 0 [a]) 1 = of_nat (decimal_value [a])"
    by (simp add: parse_brightness_def decimal_value_def)
qed

lemma parse_brightness_two:
  assumes "is_digit a" "is_digit b"
  shows "parse_brightness (store [x, y, z] 0 [a, b]) 2 = of_nat (decimal_value [a, b])"
    and "decimal_value [a, b] \<le> 99"
proof -
  let ?b1 = "of_nat (decimal_value [a]) :: u8"
  have u: "unat ?b1 = decimal_value [a]"
    using parse_brightness_one(2)[OF assms(1)] by (simp add: unat_of_nat)
  with parse_brightness_one(2)[OF assms(1)] have le: "unat ?b1 \<le> 9" by simp
  have d: "decimal_value [a, b] = 10 * decimal_value [a] + (of_char b - 48)"
    by (simp add: decimal_value_def)
  from digit_step(2)[OF assms(2) le] u show "decimal_value [a, b] \<le> 99" by (simp add: d)
  have "parse_brightness (store [x, y, z] 0 [a, b]) 2
        = word_of_int (uint (parse_brightness (store [x, y, z] 0 [a]) 1) * 10 + (of_char b - of_char CHR ''0''))"
    by (simp add: parse_brightness_def numeral_2_eq_2)
  also have "\<dots> = word_of_int (uint ?b1 * 10 + (of_char b - of_char CHR ''0''))"
    by (simp only: parse_brightness_one(1)[OF assms(1)])
  also have "\<dots> = of_nat (10 * unat ?b1 + (of_char b - 48))"
    by (rule digit_step(1)[OF assms(2) le])
  finally show "parse_brightness (store [x, y, z] 0 [a, b]) 2 = of_nat (decimal_value [a, b])"
    by (simp only: u d)
qed

text \<open>At most two stored digits parse to their decimal value, which is below 100.\<close>

lemma parse_brightness_digits:
  assumes "list_all is_digit ds" "1 \<le> length ds" "length ds \<le> 2"
  shows "parse_brightness (store [x, y, z] 0 ds) (length ds) = of_nat (decimal_value ds)
         \<and> decimal_value ds \<le> 99"
proof -
  from assms(2,3) consider a where "ds = [a]" | a b where "ds = [a, b]"
    by (cases ds; cases "tl ds"; cases "tl (tl ds)") auto
  then show ?thesis
  proof cases
    case 1
    with assms(1) have a: "is_digit a" by simp
    from parse_brightness_one[OF a] 1 show ?thesis by simp
  next
    case 2
    with assms(1) have ab: "is_digit a" "is_digit b" by simp_all
    from parse_brightness_two[OF ab] 2 show ?thesis by (simp add: numeral_2_eq_2)
  qed
qed

lemma fmt_u_no_NUL: "CHR 0x00 \<notin> set (fmt_u n)"
proof (induction n rule: fmt_u.induct)
  case (1 n)
  have d: "\<And>k. k < 10 \<Longrightarrow> char_of (48 + k :: nat) \<noteq> CHR 0x00"
  proof -
    fix k :: nat assume "k < 10"
    then have "of_char (char_of (48 + k :: nat)) = 48 + k" by simp
    moreover have "of_char CHR 0x00 = (0::nat)" by simp
    ultimately show "char_of (48 + k :: nat) \<noteq> CHR 0x00" by (metis add_is_0 zero_neq_numeral)
  qed
  show ?case
  proof (cases "n < 10")
    case True then show ?thesis using d[of n] by (subst fmt_u.simps) simp
  next
    case False
    with 1 have "CHR 0x00 \<notin> set (fmt_u (n div 10))" by simp
    moreover have "char_of (48 + n mod 10) \<noteq> CHR 0x00" using d[of "n mod 10"] by simp
    ultimately show ?thesis using False by (subst fmt_u.simps) simp
  qed
qed


lemma set_led_brightness_frame:
  "tx_log (set_led_brightness b s) = tx_log s" "rx_log (set_led_brightness b s) = rx_log s"
  "ticked env s (set_led_brightness b s)"
  by (simp_all add: set_led_brightness_def Let_def ticked_def)

lemma set_led_brightness_small:
  assumes "v \<le> 99"
  shows "TIM2_CCR1 (set_led_brightness (of_nat v) s) = of_nat v"
    and "fmt_d (uint (of_nat v :: u8)) = fmt_u v"
proof -
  from assms have u: "unat (of_nat v :: u8) = v" by (simp add: unat_of_nat)
  then have "\<not> (of_nat v :: u8) > 99" by (simp add: word_less_nat_alt assms not_less)
  then have "TIM2_CCR1 (set_led_brightness (of_nat v) s) = ucast (of_nat v :: u8)"
    by (simp add: set_led_brightness_def Let_def)
  also have "\<dots> = of_nat (unat (of_nat v :: u8))" by simp
  finally show "TIM2_CCR1 (set_led_brightness (of_nat v) s) = of_nat v" by (simp only: u)
  have "uint (of_nat v :: u8) = int (unat (of_nat v :: u8))" by simp
  then show "fmt_d (uint (of_nat v :: u8)) = fmt_u v" by (simp only: u fmt_d_def) simp
qed

lemma finish_L_command_no_digits:
  "finish_L_command env (str, 0, s)
     = uart_send_string env (''No digits received after L command'' @ CRLF) s"
  by (simp add: finish_L_command_def)

lemma elapsed_advance:
  assumes "count_list (env (now s)) Tick \<le> 1" and "unat (msTicks s - st) < 2 ^ 32 - 1"
  shows "unat (msTicks (advance env s) - st) = unat (msTicks s - st) + count_list (env (now s)) Tick"
proof -
  have m1: "msTicks (advance env s) - st = (msTicks s - st) + of_nat (count_list (env (now s)) Tick)"
    by (simp add: msTicks_advance)
  have lt: "unat (msTicks s - st) + count_list (env (now s)) Tick < 2 ^ 32"
    using assms by simp
  show ?thesis unfolding m1 using lt by (simp add: unat_word_ariths unat_of_nat)
qed

lemma collect_digits_terminates:
  assumes tf: "tick_fair env" and xf: "txe_fair env"
  shows "\<exists>r. collect_digits env start (str, idx, s) = Some r"
proof (induction "2 - idx" arbitrary: idx str s)
  case 0
  then have "\<not> idx < 2" by simp
  then show ?case by (subst collect_digits.simps) simp
next
  case (Suc k)
  then have idx: "idx < 2" by simp
  from Suc(2) have "k = 2 - Suc idx" by simp
  note outer = Suc(1)[OF this]
  from tf have one: "\<And>j. count_list (env j) Tick \<le> 1" and fair: "\<forall>n. \<exists>m\<ge>n. Tick \<in> set (env m)"
    by (simp_all add: tick_fair_def)
  have step: "(\<exists>r. collect_digits env start (str, idx, s) = Some r)
        \<or> (msTicks (advance env s) - start < 5000
            \<and> collect_digits env start (str, idx, s)
                = collect_digits env start (str, idx, advance env (advance env s)))" for s
  proof -
    let ?s1 = "advance env s"
    let ?s2 = "advance env ?s1"
    show ?thesis
    proof (cases "msTicks ?s1 - start < 5000")
      case False
      with idx have "collect_digits env start (str, idx, s) = Some (str, idx, ?s1)"
        by (subst collect_digits.simps) (simp add: Let_def)
      then show ?thesis by blast
    next
      case time: True
      show ?thesis
      proof (cases "USART_ISR ?s2 AND push_bit 5 1 \<noteq> 0")
        case False
        with idx time have "collect_digits env start (str, idx, s) = collect_digits env start (str, idx, ?s2)"
          by (subst collect_digits.simps) (simp add: Let_def uart_data_available_def)
        with time show ?thesis by blast
      next
        case avail: True
        obtain c s3 where rc: "uart_receive_char env ?s2 = (c, s3)" by (cases "uart_receive_char env ?s2")
        from wait_txe_terminates[OF xf] obtain s4 where s4: "wait_txe env (write_TDR c s3) = Some s4" by blast
        from delay_ms_terminates[of env 5 s4] one fair obtain s5 where s5: "delay_ms env 5 s4 = Some s5"
          by blast
        from outer[of "str[idx := c]" s5] obtain r where r: "collect_digits env start (str[idx := c], Suc idx, s5) = Some r"
          by blast
        have "collect_digits env start (str, idx, s) = (if is_digit c then Some r else Some (str, idx, s4))"
          using idx time avail rc s4 s5 r
          by (subst collect_digits.simps) (simp add: Let_def uart_data_available_def)
        then have "\<exists>r'. collect_digits env start (str, idx, s) = Some r'"
          by (cases "is_digit c") (simp_all only: if_True if_False, blast+)
        then show ?thesis by blast
      qed
    qed
  qed
  have poll: "unat (msTicks s - start) \<le> 5000
      \<Longrightarrow> 5000 - unat (msTicks s - start) \<le> ticks env (now s) (now s + d)
      \<Longrightarrow> \<exists>r. collect_digits env start (str, idx, s) = Some r" for d s
  proof (induction d arbitrary: s rule: less_induct)
    case (less d)
    let ?s1 = "advance env s"
    let ?s2 = "advance env ?s1"
    let ?e = "unat (msTicks s - start)"
    let ?c1 = "count_list (env (now s)) Tick"
    let ?c2 = "count_list (env (Suc (now s))) Tick"
    from step[of s] show ?case
    proof
      assume "\<exists>r. collect_digits env start (str, idx, s) = Some r" then show ?thesis .
    next
      assume a: "msTicks ?s1 - start < 5000
            \<and> collect_digits env start (str, idx, s) = collect_digits env start (str, idx, ?s2)"
      have e1: "unat (msTicks ?s1 - start) = ?e + ?c1"
        using less.prems(1) by (intro elapsed_advance one) simp
      from a have lt: "?e + ?c1 < 5000" by (simp add: word_less_nat_alt e1)
      have e2: "unat (msTicks ?s2 - start) = ?e + ?c1 + ?c2"
        using elapsed_advance[of env ?s1 start] one lt by (simp add: e1 advance_frame)
      have d2: "2 \<le> d"
      proof (rule ccontr)
        assume "\<not> 2 \<le> d"
        then have "d = 0 \<or> d = 1" by auto
        then have "ticks env (now s) (now s + d) \<le> ?c1" by (auto simp: ticks_def)
        with less.prems(2) lt show False by simp
      qed
      then obtain d' where d': "d = Suc (Suc d')" by (metis Suc_le_D numeral_2_eq_2 Suc_le_mono)
      have "ticks env (now s) (now s + d) = ?c1 + (?c2 + ticks env (now ?s2) (now ?s2 + d'))"
        by (simp add: d' ticks_step advance_frame)
      with less.prems(2) e2 have b: "5000 - unat (msTicks ?s2 - start) \<le> ticks env (now ?s2) (now ?s2 + d')"
        by simp
      have c: "unat (msTicks ?s2 - start) \<le> 5000" using e2 lt one[of "Suc (now s)"] by simp
      from less.IH[of d' ?s2, OF _ c b] d' a show ?thesis by simp
    qed
  qed
  from step[of s] show ?case
  proof
    assume "\<exists>r. collect_digits env start (str, idx, s) = Some r" then show ?thesis .
  next
    let ?s1 = "advance env s"
    let ?s2 = "advance env ?s1"
    assume a: "msTicks ?s1 - start < 5000
            \<and> collect_digits env start (str, idx, s) = collect_digits env start (str, idx, ?s2)"
    then have lt1: "unat (msTicks ?s1 - start) < 5000" by (simp add: word_less_nat_alt)
    have "unat (msTicks ?s2 - start)
          = unat (msTicks ?s1 - start) + count_list (env (now ?s1)) Tick"
      using lt1 by (intro elapsed_advance one) simp
    with one[of "now ?s1"] lt1 have c: "unat (msTicks ?s2 - start) \<le> 5000" by simp
    from fair_ticks[OF fair, of "now ?s2" "5000 - unat (msTicks ?s2 - start)"]
    obtain m where m: "m \<ge> now ?s2" "5000 - unat (msTicks ?s2 - start) \<le> ticks env (now ?s2) m" by blast
    then have "5000 - unat (msTicks ?s2 - start) \<le> ticks env (now ?s2) (now ?s2 + (m - now ?s2))" by simp
    from poll[OF c this] a show ?thesis by simp
  qed
qed

section \<open>The \<open>L\<close> command as a whole\<close>

lemma finish_L_command_digits_eq:
  assumes "list_all is_digit ds" "1 \<le> length ds" "length ds \<le> 2"
  shows "finish_L_command env (store [x, y, z] 0 ds, length ds, s)
           = uart_send_string env
               (CRLF @ ''LED brightness set to '' @ fmt_u (decimal_value ds) @ ''%'' @ CRLF)
               (set_led_brightness (of_nat (decimal_value ds)) s)"
proof -
  from parse_brightness_digits[OF assms]
  have p: "parse_brightness (store [x, y, z] 0 ds) (length ds) = of_nat (decimal_value ds)"
    and v: "decimal_value ds \<le> 99"
    by simp_all
  from assms(2) have "ds \<noteq> []" by auto
  then show ?thesis
    by (simp add: finish_L_command_def Let_def p set_led_brightness_small(2)[OF v]
        del: uart_send_string.simps)
qed

lemma no_NUL_strings:
  "CHR 0x00 \<notin> set (CRLF @ ''LED brightness set to '' @ fmt_u n @ ''%'' @ CRLF)"
  "CHR 0x00 \<notin> set (''No digits received after L command'' @ CRLF)"
  "CHR 0x00 \<notin> set (''LED command received, waiting for digits...'' @ CRLF)"
  "CHR 0x00 \<notin> set (''Temperature reading ON'' @ CRLF)"
  "CHR 0x00 \<notin> set (''Temperature reading OFF'' @ CRLF)"
  by (simp_all add: fmt_u_no_NUL CRLF_def)

lemma uart_send_string_exit':
  assumes "uart_send_string env str s = Some s'" and "CHR 0x00 \<notin> set str"
  shows "tx_log s' = tx_log s @ str" "TIM2_CCR1 s' = TIM2_CCR1 s" "rx_log s' = rx_log s"
    "ticked env s s'"
proof -
  from assms(2) have "takeWhile (\<lambda>c. c \<noteq> CHR 0x00) str = str" by (auto simp: takeWhile_eq_all_conv)
  with uart_send_string_exit[OF assms(1)]
  show "tx_log s' = tx_log s @ str" "TIM2_CCR1 s' = TIM2_CCR1 s" "rx_log s' = rx_log s"
    "ticked env s s'" by simp_all
qed

lemma L_command_exit:
  assumes "L_command env s = Some s'"
  shows "\<exists>ds t. L_post env s s' ds t"
proof -
  let ?init = "[CHR 0x00, CHR 0x00, CHR 0x00]"
  from assms obtain s1 where s1: "uart_send_string env L_prompt s = Some s1"
    by (auto simp: L_command_def L_prompt_def simp del: uart_send_string.simps split: option.splits)
  let ?s2 = "advance env s1"
  from assms s1 obtain st where st: "collect_digits env (msTicks ?s2) (?init, 0, ?s2) = Some st"
    and fin: "finish_L_command env st = Some s'"
    by (auto simp: L_command_def L_prompt_def Let_def simp del: uart_send_string.simps split: option.splits)
  obtain str' idx' s3 where st3: "st = (str', idx', s3)" by (cases st)
  from collect_digits_exit[OF st] obtain ds t where
    "collect_post env (msTicks ?s2) (?init, 0, ?s2) st ds t" by blast
  then have cp: "rx_log s3 = rx_log ?s2 @ ds @ t" "tx_log s3 = tx_log ?s2 @ ds @ t"
    "list_all is_digit ds" "idx' = length ds" "length ds \<le> 2" "str' = store ?init 0 ds"
    "TIM2_CCR1 s3 = TIM2_CCR1 ?s2" "ticked env ?s2 s3"
    "t = [] \<or> (length t = 1 \<and> \<not> is_digit (hd t) \<and> length ds < 2)"
    by (auto simp: collect_post_def st3 split: if_splits)
  note p = uart_send_string_exit'[OF s1, unfolded L_prompt_def, OF no_NUL_strings(3), folded L_prompt_def]
  have t3: "ticked env s s3"
    using p(4) ticked_advance[of env s1] cp(8) by (meson ticked_trans)
  have l3: "rx_log s3 = rx_log s @ ds @ t" "tx_log s3 = tx_log s @ L_prompt @ ds @ t"
    "TIM2_CCR1 s3 = TIM2_CCR1 s"
    using cp p by (simp_all add: advance_frame)
  show ?thesis
  proof (cases "ds = []")
    case True
    with fin st3 cp(4) have f: "uart_send_string env (''No digits received after L command'' @ CRLF) s3 = Some s'"
      by (simp add: finish_L_command_no_digits del: uart_send_string.simps)
    note q = uart_send_string_exit'[OF f no_NUL_strings(2)]
    have "L_post env s s' ds t"
      unfolding L_post_def using True q l3 cp(3,5,9) t3
      by (auto intro: ticked_trans)
    then show ?thesis by blast
  next
    case False
    then have one: "1 \<le> length ds" by (cases ds) auto
    let ?v = "decimal_value ds"
    let ?buffer = "CRLF @ ''LED brightness set to '' @ fmt_u ?v @ ''%'' @ CRLF"
    from parse_brightness_digits[OF cp(3) one cp(5)] have v: "?v \<le> 99" by simp
    from fin st3 cp(4,6) finish_L_command_digits_eq[OF cp(3) one cp(5)]
    have f: "uart_send_string env ?buffer (set_led_brightness (of_nat ?v) s3) = Some s'"
      by (simp del: uart_send_string.simps)
    note q = uart_send_string_exit'[OF f no_NUL_strings(1)]
    have t': "ticked env s s'"
      using t3 set_led_brightness_frame(3)[of env s3 "of_nat ?v"] q(4) by (meson ticked_trans)
    have "L_post env s s' ds t"
      unfolding L_post_def using False q(1-3) l3 cp(3,5,9) t'
      by (simp add: set_led_brightness_frame(1,2) set_led_brightness_small(1)[OF v])
    then show ?thesis by blast
  qed
qed

lemma finish_L_command_terminates:
  assumes "txe_fair env"
  shows "\<exists>s'. finish_L_command env st = Some s'"
proof -
  obtain str idx s where st: "st = (str, idx, s)" by (cases st)
  show ?thesis unfolding st finish_L_command_def
    using uart_send_string_terminates[OF assms]
    by (simp add: Let_def del: uart_send_string.simps)
qed

lemma L_command_terminates:
  assumes "tick_fair env" "txe_fair env"
  shows "\<exists>s'. L_command env s = Some s'"
proof -
  from uart_send_string_terminates[OF assms(2)] obtain s1 where
    s1: "uart_send_string env (''LED command received, waiting for digits...'' @ CRLF) s = Some s1"
    by blast
  from collect_digits_terminates[OF assms] obtain st where
    st: "collect_digits env (msTicks (advance env s1)) ([CHR 0x00, CHR 0x00, CHR 0x00], 0, advance env s1) = Some st"
    by blast
  from finish_L_command_terminates[OF assms(2)] obtain s' where "finish_L_command env st = Some s'"
    by blast
  with s1 st show ?thesis by (simp add: L_command_def Let_def del: uart_send_string.simps)
qed

section \<open>The rest of the main loop\<close>

lemma uart_receive_char_ticked:
  assumes "uart_receive_char env s = (c, s')"
  shows "ticked env s s'"
proof -
  let ?s1 = "advance env s"
  let ?s2 = "advance env ?s1"
  let ?c = "char_of (unat (USART_RDR ?s2))"
  let ?s3 = "?s2\<lparr>USART_ISR := USART_ISR ?s2 AND NOT (push_bit 5 1), rx_log := rx_log ?s2 @ [?c]\<rparr>"
  have "ticked env s ?s3"
    by (rule ticked_same[OF _ _ _ ticked_trans[OF ticked_advance ticked_advance]]) simp_all
  moreover from assms have "s' = ?s1 \<or> s' = ?s3"
    by (auto simp: uart_receive_char_def Let_def split: if_splits)
  ultimately show ?thesis using ticked_advance[of env s] by auto
qed

lemma T_command_exit:
  assumes "T_command env (f, s) = Some (f', s')"
  shows "f' = (if f = 0 then 1 else 0)
    \<and> tx_log s' = tx_log s @ (if f' \<noteq> 0 then ''Temperature reading ON''
                               else ''Temperature reading OFF'') @ CRLF
    \<and> TIM2_CCR1 s' = TIM2_CCR1 s \<and> rx_log s' = rx_log s \<and> ticked env s s'"
proof (cases "f = 0")
  case True
  with assms have f': "f' = 1"
    and "uart_send_string env (''Temperature reading ON'' @ CRLF) s = Some s'"
    by (auto simp: T_command_def Let_def simp del: uart_send_string.simps split: option.splits)
  from uart_send_string_exit'[OF this(2) no_NUL_strings(4)] f' True show ?thesis by simp
next
  case False
  with assms have f': "f' = 0"
    and "uart_send_string env (''Temperature reading OFF'' @ CRLF) s = Some s'"
    by (auto simp: T_command_def Let_def simp del: uart_send_string.simps split: option.splits)
  from uart_send_string_exit'[OF this(2) no_NUL_strings(5)] f' False show ?thesis by simp
qed


lemma dispatch_ticked:
  assumes "dispatch env c (f, s) = Some (f', s')"
  shows "ticked env s s'"
proof (cases "c = CHR ''T'' \<or> c = CHR ''t''")
  case True
  with assms have "T_command env (f, s) = Some (f', s')" by (auto simp: dispatch_def)
  from T_command_exit[OF this] show ?thesis by simp
next
  case nT: False
  show ?thesis
  proof (cases "c = CHR ''L'' \<or> c = CHR ''l''")
    case True
    with nT assms have "L_command env s = Some s'"
      by (auto simp: dispatch_def split: option.splits)
    from L_command_exit[OF this] show ?thesis by (auto simp: L_post_def)
  next
    case False
    with nT assms show ?thesis by (simp add: dispatch_def)
  qed
qed

lemma poll_command_ticked:
  assumes "poll_command env (f, s) = Some (f', s')"
  shows "ticked env s s'"
proof -
  let ?s1 = "advance env s"
  show ?thesis
  proof (cases "USART_ISR ?s1 AND push_bit 5 1 \<noteq> 0")
    case False
    with assms have "s' = ?s1" by (simp add: poll_command_def uart_data_available_def Let_def)
    then show ?thesis by (simp add: ticked_advance)
  next
    case True
    obtain c s2 where rc: "uart_receive_char env ?s1 = (c, s2)" by (cases "uart_receive_char env ?s1")
    with True assms have "dispatch env c (f, s2) = Some (f', s')"
      by (simp add: poll_command_def uart_data_available_def Let_def)
    from dispatch_ticked[OF this] uart_receive_char_ticked[OF rc] ticked_advance[of env s]
    show ?thesis by (meson ticked_trans)
  qed
qed

lemma report_temperature_ticked:
  assumes "report_temperature env (f, s) = Some (f', s')"
  shows "ticked env s s'"
proof (cases "f \<noteq> 0")
  case False
  with assms show ?thesis by (simp add: report_temperature_def)
next
  case True
  let ?s1 = "advance env s"
  from True assms obtain str s2 where
    s2: "uart_send_string env str ?s1 = Some s2"
    and s3: "delay_ms env 1000 s2 = Some s'"
    by (auto simp: report_temperature_def get_temperature_def Let_def
        simp del: uart_send_string.simps split: option.splits)
  from uart_send_string_exit[OF s2] delay_ms_frame(4)[OF s3] ticked_advance[of env s]
  show ?thesis by (meson ticked_trans)
qed

lemma main_iteration_ticked:
  assumes "main_iteration env (f, s) = Some (f', s')"
  shows "ticked env s s'"
proof -
  from assms obtain f1 s1 where "poll_command env (f, s) = Some (f1, s1)"
    "report_temperature env (f1, s1) = Some (f', s')"
    by (auto simp: main_iteration_def split: option.splits)
  from poll_command_ticked[OF this(1)] report_temperature_ticked[OF this(2)]
  show ?thesis by (rule ticked_trans)
qed

lemma funpow_tick: "msTicks ((SysTick_Handler ^^ n) s) = msTicks s + of_nat n"
  by (induction n) (simp_all add: SysTick_Handler_def)

section \<open>The scenarios of the specification, evaluated\<close>

lemma fair_from_60:
  fixes env :: "nat \<Rightarrow> 'a list"
  assumes "\<And>m. 60 < m \<Longrightarrow> e \<in> set (env m)"
  shows "\<forall>n. \<exists>m\<ge>n. e \<in> set (env m)"
proof
  fix n :: nat
  have "n + 61 \<ge> n" "e \<in> set (env (n + 61))" by (simp_all add: assms)
  then show "\<exists>m\<ge>n. e \<in> set (env m)" by blast
qed

lemma scenario_envs_fair:
  "tick_fair env_L5" "txe_fair env_L5" "tick_fair env_L99" "txe_fair env_L99"
  "tick_fair env_LX" "txe_fair env_LX" "tick_fair env_TT" "txe_fair env_TT"
proof -
  show "tick_fair env_L5" unfolding tick_fair_def
    by (intro conjI fair_from_60) (simp_all add: env_L5_def)
  show "tick_fair env_L99" unfolding tick_fair_def
    by (intro conjI fair_from_60) (simp_all add: env_L99_def)
  show "tick_fair env_LX" unfolding tick_fair_def
    by (intro conjI fair_from_60) (simp_all add: env_LX_def)
  show "tick_fair env_TT" unfolding tick_fair_def
    by (intro conjI fair_from_60) (simp_all add: env_TT_def)
  show "txe_fair env_L5" unfolding txe_fair_def
    by (intro fair_from_60) (simp_all add: env_L5_def)
  show "txe_fair env_L99" unfolding txe_fair_def
    by (intro fair_from_60) (simp_all add: env_L99_def)
  show "txe_fair env_LX" unfolding txe_fair_def
    by (intro fair_from_60) (simp_all add: env_LX_def)
  show "txe_fair env_TT" unfolding txe_fair_def
    by (intro fair_from_60) (simp_all add: env_TT_def)
qed

lemma scenario_envs_idle:
  "tick_fair env_idle" "txe_fair env_idle" "rx_silent env_idle"
proof -
  show "tick_fair env_idle" unfolding tick_fair_def
    by (intro conjI fair_from_60) (simp_all add: env_idle_def)
  show "txe_fair env_idle" unfolding txe_fair_def
    by (intro fair_from_60) (simp_all add: env_idle_def)
  show "rx_silent env_idle" by (simp add: rx_silent_def env_idle_def)
qed

lemma run_collect:
  "collect_digits env_LX 0 ([CHR 0x00, CHR 0x00, CHR 0x00], 0, hw_L)
     = Some ([CHR 0x00, CHR 0x00, CHR 0x00], 0,
             hw_L\<lparr>msTicks := 6, USART_RDR := 0x58, tx_log := ''X'', rx_log := ''LX'', now := 8\<rparr>)"
  "collect_digits env_L5 0 ([CHR 0x00, CHR 0x00, CHR 0x00], 0, hw_L)
     = Some ([CHR ''5'', CHR 0x00, CHR 0x00], 1,
             hw_L\<lparr>msTicks := 63, USART_RDR := 0x0A, tx_log := [CHR ''5'', CHR 0x0A],
                  rx_log := [CHR ''L'', CHR ''5'', CHR 0x0A], now := 65\<rparr>)"
  "collect_digits env_L99 0 ([CHR 0x00, CHR 0x00, CHR 0x00], 0, hw_L)
     = Some ([CHR ''9'', CHR ''9'', CHR 0x00], 2,
             hw_L\<lparr>msTicks := 69, USART_RDR := 0x39, tx_log := ''99'', rx_log := ''L99'', now := 71\<rparr>)"
  by code_simp+


lemma fmt_u_99: "fmt_u 99 = ''99''" "fmt_u 5 = ''5''"
  by code_simp+

lemma run_poll_L:
  "uart_data_available env_L5 hw_boot = (1, advance env_L5 hw_boot)"
  "uart_receive_char env_L5 (advance env_L5 hw_boot) = (CHR ''L'', hw_L)"
  "uart_data_available env_L99 hw_boot = (1, advance env_L99 hw_boot)"
  "uart_receive_char env_L99 (advance env_L99 hw_boot) = (CHR ''L'', hw_L)"
  "uart_data_available env_LX hw_boot = (1, advance env_LX hw_boot)"
  "uart_receive_char env_LX (advance env_LX hw_boot) = (CHR ''L'', hw_L)"
  by code_simp+

lemma run_L5:
  "L_command env_L5 hw_L = Some (hw_L\<lparr>msTicks := 91, USART_RDR := 0x0A, TIM2_CCR1 := 5,
      tx_log := L_prompt @ ''5'' @ [CHR 0x0A] @ CRLF @ ''LED brightness set to 5%'' @ CRLF,
      rx_log := ''L5'' @ [CHR 0x0A], now := 93\<rparr>)"
  by code_simp


lemma run_LX:
  "L_command env_LX hw_L = Some (hw_L\<lparr>msTicks := 88, USART_RDR := 0x58,
      tx_log := L_prompt @ ''X'' @ ''No digits received after L command'' @ CRLF,
      rx_log := ''LX'', now := 90\<rparr>)"
  by code_simp

lemma main_is_L_command:
  assumes "uart_data_available env s = (1, s1)" "uart_receive_char env s1 = (CHR ''L'', s2)"
  shows "main_iteration env (0, s) = (case L_command env s2 of None \<Rightarrow> None | Some s' \<Rightarrow> Some (0, s'))"
  using assms
  by (simp add: main_iteration_def poll_command_def dispatch_def report_temperature_def
      split: option.splits)

section \<open>What the \<open>L\<close> command consumed\<close>

lemma digits_then_stop:
  assumes "list_all is_digit ds" and "t = [] \<or> (length t = 1 \<and> \<not> is_digit (hd t))"
  shows "takeWhile is_digit (ds @ t) = ds" "dropWhile is_digit (ds @ t) = t"
proof -
  from assms(2) have t: "takeWhile is_digit t = []" "dropWhile is_digit t = t"
    by (cases t; auto)+
  from assms(1) have d: "\<forall>c\<in>set ds. is_digit c" by (simp add: list_all_iff)
  show "takeWhile is_digit (ds @ t) = ds" using d t by (simp add: takeWhile_append2)
  show "dropWhile is_digit (ds @ t) = t" using d t by (simp add: dropWhile_append2)
qed

lemma L_command_consumed:
  assumes "L_command env s = Some s'" and "rx_log s' = rx_log s @ cs"
  shows "L_post env s s' (takeWhile is_digit cs) (dropWhile is_digit cs)"
proof -
  from L_command_exit[OF assms(1)] obtain ds t where p: "L_post env s s' ds t" by blast
  then have "cs = ds @ t" using assms(2) by (simp add: L_post_def)
  moreover from p have "list_all is_digit ds" "t = [] \<or> (length t = 1 \<and> \<not> is_digit (hd t))"
    by (auto simp: L_post_def)
  ultimately show ?thesis using p digits_then_stop by simp
qed

section \<open>A silent receiver\<close>

lemma hw_event_keeps_rx_idle:
  "\<forall>b. e \<noteq> RxByte b \<Longrightarrow> \<not> bit (USART_ISR s) 5 \<Longrightarrow> \<not> bit (USART_ISR (hw_event e s)) 5"
  by (cases e) (simp_all add: SysTick_Handler_def bit_or_iff)

lemma fold_hw_event_keeps_rx_idle:
  "\<forall>b. RxByte b \<notin> set es \<Longrightarrow> \<not> bit (USART_ISR s) 5
     \<Longrightarrow> \<not> bit (USART_ISR (fold hw_event es s)) 5"
proof (induction es arbitrary: s)
  case Nil then show ?case by simp
next
  case (Cons e es)
  from Cons.prems(1) have "\<forall>b. e \<noteq> RxByte b" "\<forall>b. RxByte b \<notin> set es" by auto
  with Cons.prems(2) Cons.IH show ?case by (simp add: hw_event_keeps_rx_idle)
qed

lemma advance_keeps_rx_idle:
  assumes "rx_silent env" and "USART_ISR s AND push_bit 5 1 = 0"
  shows "USART_ISR (advance env s) AND push_bit 5 1 = 0"
  using assms fold_hw_event_keeps_rx_idle[of "env (now s)" s]
  by (simp add: rx_silent_def rxne_bit USART_ISR_advance)

lemma funpow_advance_keeps_rx_idle:
  assumes "rx_silent env" and "USART_ISR s AND push_bit 5 1 = 0"
  shows "USART_ISR ((advance env ^^ n) s) AND push_bit 5 1 = 0"
  using assms(2) by (induction n) (simp_all add: advance_keeps_rx_idle[OF assms(1)] del: push_bit_of_1)

lemma write_TDR_keeps_rx_idle:
  "USART_ISR s AND push_bit 5 1 = 0 \<Longrightarrow> USART_ISR (write_TDR c s) AND push_bit 5 1 = 0"
  by (simp add: write_TDR_def rxne_bit bit_and_iff)

lemma uart_send_string_keeps_rx_idle:
  assumes "rx_silent env"
  shows "uart_send_string env str s = Some s' \<Longrightarrow> USART_ISR s AND push_bit 5 1 = 0
           \<Longrightarrow> USART_ISR s' AND push_bit 5 1 = 0"
proof (induction str arbitrary: s)
  case Nil then show ?case by simp
next
  case (Cons c str)
  show ?case
  proof (cases "c = CHR 0x00")
    case True with Cons.prems show ?thesis by simp
  next
    case False
    with Cons.prems(1) obtain s1 where s1: "wait_txe env (write_TDR c s) = Some s1"
      "uart_send_string env str s1 = Some s'" by (auto split: option.splits)
    from wait_txe_exit[OF s1(1)] obtain n where "s1 = (advance env ^^ Suc n) (write_TDR c s)" by blast
    with funpow_advance_keeps_rx_idle[OF assms write_TDR_keeps_rx_idle[OF Cons.prems(2)], of "Suc n" c]
    have "USART_ISR s1 AND push_bit 5 1 = 0" by simp
    from Cons.IH[OF s1(2) this] show ?thesis .
  qed
qed

text \<open>With a silent receiver the collection loop consumes nothing.\<close>

lemma collect_digits_silent:
  assumes "collect_digits env start st = Some r" and "rx_silent env"
    and "USART_ISR (snd (snd st)) AND push_bit 5 1 = 0"
  shows "rx_log (snd (snd r)) = rx_log (snd (snd st))"
proof -
  have "rx_silent env \<longrightarrow> USART_ISR (snd (snd st)) AND push_bit 5 1 = 0
          \<longrightarrow> rx_log (snd (snd r)) = rx_log (snd (snd st))"
  proof (rule collect_digits.raw_induct[where P = "\<lambda>env start st r. rx_silent env \<longrightarrow>
          USART_ISR (snd (snd st)) AND push_bit 5 1 = 0 \<longrightarrow> rx_log (snd (snd r)) = rx_log (snd (snd st))",
        OF _ assms(1)], goal_cases)
    case (1 f e st0 st r)
    obtain str idx s where st: "st = (str, idx, s)" by (cases st)
    let ?s1 = "advance e s"
    let ?s2 = "advance e ?s1"
    show ?case
    proof (intro impI)
      assume sil: "rx_silent e" and idle0: "USART_ISR (snd (snd st)) AND push_bit 5 1 = 0"
      then have idle: "USART_ISR ?s2 AND push_bit 5 1 = 0"
        using advance_keeps_rx_idle st by simp
      show "rx_log (snd (snd r)) = rx_log (snd (snd st))"
      proof (cases "idx < 2")
        case False
        with 1(2) st show ?thesis by simp
      next
        case idx: True
        show ?thesis
        proof (cases "msTicks ?s1 - st0 < 5000")
          case False
          with 1(2) st idx have "r = (str, idx, ?s1)" by (simp add: Let_def)
          then show ?thesis by (simp add: st advance_frame)
        next
          case True
          with 1(2) st idx idle have "f e st0 (str, idx, ?s2) = Some r"
            by (simp add: Let_def uart_data_available_def)
          from 1(1)[OF this] sil idle show ?thesis by (simp add: st advance_frame)
        qed
      qed
    qed
  qed
  with assms(2,3) show ?thesis by blast
qed

lemma finish_L_command_rx_log:
  assumes "finish_L_command env (str, idx, s) = Some s'"
  shows "rx_log s' = rx_log s"
proof -
  from assms obtain buffer s0 where "uart_send_string env buffer s0 = Some s'" "rx_log s0 = rx_log s"
    by (auto simp: finish_L_command_def Let_def set_led_brightness_frame(2)
        simp del: uart_send_string.simps split: if_splits)
  with uart_send_string_exit show ?thesis by metis
qed

lemma L_command_no_input:
  assumes "rx_silent env" "tick_fair env" "txe_fair env" "USART_ISR s AND push_bit 5 1 = 0"
  shows "\<exists>s'. L_command env s = Some s' \<and> rx_log s' = rx_log s \<and> TIM2_CCR1 s' = TIM2_CCR1 s
           \<and> tx_log s' = tx_log s @ L_prompt @ ''No digits received after L command'' @ CRLF"
proof -
  let ?init = "[CHR 0x00, CHR 0x00, CHR 0x00]"
  from L_command_terminates[OF assms(2,3)] obtain s' where s': "L_command env s = Some s'" by blast
  then obtain s1 where s1: "uart_send_string env L_prompt s = Some s1"
    by (auto simp: L_command_def L_prompt_def simp del: uart_send_string.simps split: option.splits)
  let ?s2 = "advance env s1"
  from s' s1 obtain st where st: "collect_digits env (msTicks ?s2) (?init, 0, ?s2) = Some st"
    and fin: "finish_L_command env st = Some s'"
    by (auto simp: L_command_def L_prompt_def Let_def simp del: uart_send_string.simps split: option.splits)
  obtain str' idx' s3 where st3: "st = (str', idx', s3)" by (cases st)
  have "USART_ISR ?s2 AND push_bit 5 1 = 0"
    using uart_send_string_keeps_rx_idle[OF assms(1) s1 assms(4)] advance_keeps_rx_idle[OF assms(1)]
    by simp
  with collect_digits_silent[OF st assms(1)] have "rx_log s3 = rx_log ?s2" by (simp add: st3)
  moreover from uart_send_string_exit[OF s1] have "rx_log s1 = rx_log s" by simp
  moreover from fin have "rx_log s' = rx_log s3" unfolding st3 by (rule finish_L_command_rx_log)
  ultimately have same: "rx_log s' = rx_log s" by (simp add: advance_frame)
  from L_command_exit[OF s'] obtain ds t where p: "L_post env s s' ds t" by blast
  with same have "ds = []" "t = []" by (simp_all add: L_post_def)
  with p s' same show ?thesis by (simp add: L_post_def)
qed



section \<open>The conversion where nothing wraps\<close>

lemma get_temperature_value:
  "fst (get_temperature env s)
     = (ADC_DR (advance env s) * 3300 div 3300 - ucast (TEMP30_CAL s)) * 1000 div 5336 + 30"
  by (simp add: get_temperature_def Let_def VDD_APPLI_def VDD_CALIB_def AVG_SLOPE_def advance_frame)

text \<open>
  Where nothing wraps (the sample is at least the calibration value and the products
  fit 32 bits) the code computes the formula of the specification.
\<close>

lemma unat_ucast_cal: "unat (ucast (x :: u16) :: u32) = unat x"
proof -
  have "unat x < 2 ^ 16" using unsigned_less[of x, where 'a=nat] by simp
  then have "unat x < 2 ^ 32" by simp
  then show ?thesis by (simp add: unsigned_ucast_eq take_bit_nat_eq_self)
qed

lemma sint_small: "unat (w :: u32) = n \<Longrightarrow> n < 2 ^ 31 \<Longrightarrow> sint w = int n"
proof -
  assume a: "unat w = n" "n < 2 ^ 31"
  then have "uint w = int n" by (simp add: uint_nat)
  moreover from a(2) have "int n < 2 ^ 31" by (metis of_nat_less_iff of_nat_numeral of_nat_power)
  ultimately show ?thesis by (simp add: sint_uint signed_take_bit_int_eq_self)
qed

lemma trunc_div_nonneg: "0 \<le> a \<Longrightarrow> 0 < b \<Longrightarrow> trunc_div a b = a div b"
  by (cases "a = 0") (simp_all add: trunc_div_def sgn_if)

lemma spec_temperature_nat:
  assumes "c \<le> a"
  shows "spec_temperature (int a) (int c) = int ((a - c) * 1000 div 5336 + 30)"
proof -
  have 1: "trunc_div (int a * 3300) 3300 = int a"
    by (subst trunc_div_nonneg) simp_all
  have 2: "(int a - int c) * 1000 = int ((a - c) * 1000)"
    using assms by (simp add: of_nat_diff)
  have "int ((a - c) * 1000) div 5336 = int ((a - c) * 1000 div 5336)"
    using zdiv_int[of "(a - c) * 1000" 5336] by (simp only: of_nat_numeral)
  moreover have "trunc_div (int ((a - c) * 1000)) 5336 = int ((a - c) * 1000) div 5336"
    by (rule trunc_div_nonneg) simp_all
  ultimately have 3: "trunc_div (int ((a - c) * 1000)) 5336 = int ((a - c) * 1000 div 5336)"
    by (simp only:)
  show ?thesis unfolding spec_temperature_def 1 2 3 by simp
qed

lemma get_temperature_above_calibration:
  assumes "unat (ADC_DR (advance env s)) * 3300 < 2 ^ 32"
    and "unat (TEMP30_CAL s) \<le> unat (ADC_DR (advance env s))"
    and "(unat (ADC_DR (advance env s)) - unat (TEMP30_CAL s)) * 1000 < 2 ^ 31"
  shows "sint (fst (get_temperature env s))
           = spec_temperature (uint (ADC_DR (advance env s))) (uint (TEMP30_CAL s))"
proof -
  let ?raw = "ADC_DR (advance env s)"
  let ?cal = "ucast (TEMP30_CAL s) :: u32"
  let ?a = "unat ?raw"
  let ?c = "unat (TEMP30_CAL s)"
  have c: "unat ?cal = ?c" by (rule unat_ucast_cal)
  have m: "unat (?raw * 3300) = ?a * 3300"
    using assms(1) unat_mult_lem[of ?raw 3300] by simp
  have d: "unat (?raw * 3300 div 3300) = ?a" by (simp add: unat_div m)
  have sb: "unat (?raw * 3300 div 3300 - ?cal) = ?a - ?c"
    using assms(2) by (metis word_le_nat_alt unat_sub d c)
  have lt: "(?a - ?c) * 1000 < 2 ^ 32" using assms(3) by simp
  have m2: "unat ((?raw * 3300 div 3300 - ?cal) * 1000) = (?a - ?c) * 1000"
    using lt unat_mult_lem[of "?raw * 3300 div 3300 - ?cal" 1000] by (simp add: sb)
  have n: "unat (5336 :: u32) = 5336" "unat (30 :: u32) = 30" by simp_all
  have d2: "unat ((?raw * 3300 div 3300 - ?cal) * 1000 div 5336) = (?a - ?c) * 1000 div 5336"
    by (simp only: unat_div m2 n)
  have small: "(?a - ?c) * 1000 div 5336 + 30 < 2 ^ 31" using assms(3) by simp
  have "unat ((?raw * 3300 div 3300 - ?cal) * 1000 div 5336) + unat (30 :: u32) < 2 ^ LENGTH(32)"
    using small by (simp only: d2 n) simp
  then have u: "unat ((?raw * 3300 div 3300 - ?cal) * 1000 div 5336 + 30) = (?a - ?c) * 1000 div 5336 + 30"
    by (simp only: unat_add_lem[THEN iffD1] d2 n)
  have "sint (fst (get_temperature env s)) = int ((?a - ?c) * 1000 div 5336 + 30)"
    unfolding get_temperature_value by (rule sint_small[OF u small])
  also have "\<dots> = spec_temperature (uint ?raw) (uint (TEMP30_CAL s))"
    by (simp only: uint_nat spec_temperature_nat[OF assms(2)])
  finally show ?thesis .
qed

section \<open>Single steps of the scenarios\<close>

lemma run_steps:
  "msTicks (advance env_LX hw_L) - 0 < 5000"
  "USART_ISR (advance env_LX (advance env_LX hw_L)) AND push_bit 5 1 \<noteq> 0"
  "uart_receive_char env_LX (advance env_LX (advance env_LX hw_L))
     = (CHR ''X'', hw_L\<lparr>msTicks := 5, USART_RDR := 0x58, rx_log := ''LX'', now := 7\<rparr>)"
  "wait_txe env_LX (write_TDR CHR ''X'' (hw_L\<lparr>msTicks := 5, USART_RDR := 0x58, rx_log := ''LX'', now := 7\<rparr>))
     = Some (hw_L\<lparr>msTicks := 6, USART_RDR := 0x58, tx_log := ''X'', rx_log := ''LX'', now := 8\<rparr>)"
  "msTicks (advance env_L5 hw_L) - 0 < 5000"
  "USART_ISR (advance env_L5 (advance env_L5 hw_L)) AND push_bit 5 1 \<noteq> 0"
  "uart_receive_char env_L5 (advance env_L5 (advance env_L5 hw_L))
     = (CHR ''5'', hw_L\<lparr>msTicks := 5, USART_RDR := 0x35, rx_log := ''L5'', now := 7\<rparr>)"
  "wait_txe env_L5 (write_TDR CHR ''5'' (hw_L\<lparr>msTicks := 5, USART_RDR := 0x35, rx_log := ''L5'', now := 7\<rparr>))
     = Some (hw_L\<lparr>msTicks := 6, USART_RDR := 0x35, tx_log := ''5'', rx_log := ''L5'', now := 8\<rparr>)"
  "delay_ms env_L5 5 (hw_L\<lparr>msTicks := 6, USART_RDR := 0x35, tx_log := ''5'', rx_log := ''L5'', now := 8\<rparr>)
     = Some (hw_L\<lparr>msTicks := 12, USART_RDR := 0x35, tx_log := ''5'', rx_log := ''L5'', now := 14\<rparr>)"
  "msTicks (advance env_idle hw_L) - 0 < 5000"
  "USART_ISR (advance env_idle (advance env_idle hw_L)) AND push_bit 5 1 = 0"
  "5000 \<le> msTicks (advance env_idle (hw_L\<lparr>msTicks := 6000\<rparr>)) - 0"
  "is_digit CHR ''5''" "\<not> is_digit CHR ''X''" "USART_ISR hw_L AND push_bit 5 1 = 0"
  by code_simp+

section \<open>Claims about the peripherals' drivers\<close>

text \<open>
  C1 (code defect). The specification gives the conversion as
  \<open>((raw * Vapp / Vcal) - cal30) * 1000 / slope + 30\<close> over signed integers with
  truncating division. The code computes it in \<open>uint32_t\<close>: when the sample lies below
  the calibration value the difference wraps. For the sample 1700 and the calibration
  value 1750 the function returns 804924, where the formula of the specification gives
  21 degrees. For the sample 0 and the calibration value 0 both give 30; lemma
  \<open>get_temperature_above_calibration\<close> above shows that they agree whenever the sample
  is not below the calibration value and the products fit.
\<close>

theorem get_temperature_wraps_below_calibration:
  "sint (fst (get_temperature (\<lambda>_. []) (hw_reset\<lparr>ADC_DR := 1700, TEMP30_CAL := 1750\<rparr>))) = 804924
   \<and> spec_temperature 1700 1750 = 21
   \<and> sint (fst (get_temperature (\<lambda>_. []) (hw_reset\<lparr>ADC_DR := 0, TEMP30_CAL := 0\<rparr>))) = 30
   \<and> spec_temperature 0 0 = 30"
  by (simp add: get_temperature_def advance_def hw_reset_def VDD_APPLI_def VDD_CALIB_def
      AVG_SLOPE_def spec_temperature_def trunc_div_def)

text \<open>
  C2. \<open>set_led_brightness v\<close> leaves \<open>TIM2_CCR1\<close> equal to \<open>v\<close> for \<open>v \<le> 99\<close> and
  equal to 99 for every larger 8-bit \<open>v\<close>; a second call with the same argument
  changes nothing.
\<close>

theorem set_led_brightness_clamps:
  "(v \<le> 99 \<longrightarrow> TIM2_CCR1 (set_led_brightness v s) = ucast v)
   \<and> (v > 99 \<longrightarrow> TIM2_CCR1 (set_led_brightness v s) = 99)
   \<and> set_led_brightness v (set_led_brightness v s) = set_led_brightness v s"
  by (auto simp: set_led_brightness_def Let_def)

theorem set_led_brightness_clamps_witness:
  "((42::u8) \<le> 99 \<and> TIM2_CCR1 (set_led_brightness 42 hw_reset) = 42)
   \<and> ((200::u8) > 99 \<and> TIM2_CCR1 (set_led_brightness 200 hw_reset) = 99)
   \<and> set_led_brightness 200 (set_led_brightness 200 hw_reset) = set_led_brightness 200 hw_reset"
  using set_led_brightness_clamps[of 42 hw_reset] set_led_brightness_clamps[of 200 hw_reset]
  by simp

text \<open>
  C3. Let \<open>t0\<close> be the counter value \<open>delay_ms ms\<close> captures at entry. If the call
  returns, it returns at the first later read of \<open>msTicks\<close> at which
  \<open>msTicks - t0 \<ge> ms\<close> holds in arithmetic modulo \<open>2 ^ 32\<close>: the condition holds at the
  read it returns from and failed at every read before, whatever \<open>t0\<close> is, so also
  when the counter wraps during the wait. And it does return when tick interrupts keep
  occurring and the loop polls at least once per tick (\<open>tick_fair\<close>); for \<open>ms > 0\<close>
  exactly \<open>ms\<close> ticks have then passed.
\<close>

theorem delay_ms_returns_once_elapsed:
  "(\<forall>s'. delay_ms env ms s = Some s' \<longrightarrow>
      (\<exists>n. s' = (advance env ^^ Suc n) (advance env s)
           \<and> ms \<le> msTicks s' - msTicks (advance env s)
           \<and> (\<forall>i. 1 \<le> i \<and> i \<le> n \<longrightarrow>
                  msTicks ((advance env ^^ i) (advance env s)) - msTicks (advance env s) < ms)))
   \<and> (tick_fair env \<longrightarrow>
      (\<exists>s'. delay_ms env ms s = Some s'
           \<and> (0 < ms \<longrightarrow> msTicks s' - msTicks (advance env s) = ms)))"
proof (intro conjI allI impI)
  fix s' assume "delay_ms env ms s = Some s'"
  then have "delay_loop env (msTicks (advance env s)) ms (advance env s) = Some s'"
    by (simp add: delay_ms_def Let_def)
  then show "\<exists>n. s' = (advance env ^^ Suc n) (advance env s)
           \<and> ms \<le> msTicks s' - msTicks (advance env s)
           \<and> (\<forall>i. 1 \<le> i \<and> i \<le> n \<longrightarrow>
                  msTicks ((advance env ^^ i) (advance env s)) - msTicks (advance env s) < ms)"
    by (rule delay_loop_exit)
next
  assume "tick_fair env"
  then have "(\<forall>k. count_list (env k) Tick \<le> 1) \<and> (\<forall>n. \<exists>m\<ge>n. Tick \<in> set (env m))"
    by (simp add: tick_fair_def)
  then show "\<exists>s'. delay_ms env ms s = Some s'
           \<and> (0 < ms \<longrightarrow> msTicks s' - msTicks (advance env s) = ms)"
    using delay_ms_terminates[of env ms s] by blast
qed

theorem delay_ms_returns_once_elapsed_witness:
  "tick_fair (\<lambda>_. [Tick])
   \<and> (\<exists>s'. delay_ms (\<lambda>_. [Tick]) 5 (hw_reset\<lparr>msTicks := 0xFFFFFFFE\<rparr>) = Some s' \<and> msTicks s' = 4)"
proof -
  have h: "tick_fair (\<lambda>_. [Tick])"
    by (auto simp: tick_fair_def intro: order_refl)
  have t0: "msTicks (advance (\<lambda>_. [Tick]) (hw_reset\<lparr>msTicks := 0xFFFFFFFE\<rparr>)) = 0xFFFFFFFF"
    by (simp add: advance_def SysTick_Handler_def hw_reset_def)
  from delay_ms_returns_once_elapsed[of "\<lambda>_. [Tick]" 5 "hw_reset\<lparr>msTicks := 0xFFFFFFFE\<rparr>"] h
  obtain s' where s': "delay_ms (\<lambda>_. [Tick]) 5 (hw_reset\<lparr>msTicks := 0xFFFFFFFE\<rparr>) = Some s'"
    "msTicks s' - msTicks (advance (\<lambda>_. [Tick]) (hw_reset\<lparr>msTicks := 0xFFFFFFFE\<rparr>)) = 5"
    by auto
  from s'(2) have "msTicks s' = 5 + 0xFFFFFFFF" unfolding t0 by (simp add: algebra_simps)
  then have "msTicks s' = 4" by simp
  with s'(1) h show ?thesis by blast
qed

text \<open>
  C5. The tick handler adds exactly one to \<open>msTicks\<close>; after \<open>n\<close> invocations
  from the value \<open>t0\<close> the counter reads \<open>t0 + n\<close> modulo \<open>2 ^ 32\<close>, across the
  wrap-around as well. Nothing else writes the counter: no other hardware event and no
  register write of the program changes it, and over a whole pass of the main loop it
  moves by exactly the number of tick interrupts that occurred meanwhile.
\<close>

theorem msTicks_counts_ticks:
  "msTicks (SysTick_Handler s) = msTicks s + 1
   \<and> msTicks ((SysTick_Handler ^^ n) s) = msTicks s + of_nat n
   \<and> unat (msTicks ((SysTick_Handler ^^ n) s)) = (unat (msTicks s) + n) mod 2 ^ 32
   \<and> (e \<noteq> Tick \<longrightarrow> msTicks (hw_event e s) = msTicks s)
   \<and> msTicks (set_led_brightness b s) = msTicks s
   \<and> msTicks (write_TDR c s) = msTicks s
   \<and> (main_iteration env (f, s) = Some (f', s') \<longrightarrow>
        msTicks s' = msTicks s + of_nat (ticks env (now s) (now s')))"
proof (intro conjI impI)
  show "msTicks (SysTick_Handler s) = msTicks s + 1" by (simp add: SysTick_Handler_def)
  show "msTicks ((SysTick_Handler ^^ n) s) = msTicks s + of_nat n" by (rule funpow_tick)
  show "unat (msTicks ((SysTick_Handler ^^ n) s)) = (unat (msTicks s) + n) mod 2 ^ 32"
    by (simp add: funpow_tick unat_word_ariths unat_of_nat mod_simps)
  show "msTicks (hw_event e s) = msTicks s" if "e \<noteq> Tick" using that by (cases e) simp_all
  show "msTicks (set_led_brightness b s) = msTicks s" by (simp add: set_led_brightness_def Let_def)
  show "msTicks (write_TDR c s) = msTicks s" by (simp add: write_TDR_def)
  show "msTicks s' = msTicks s + of_nat (ticks env (now s) (now s'))"
    if "main_iteration env (f, s) = Some (f', s')"
    using main_iteration_ticked[OF that] by (simp add: ticked_def)
qed

theorem msTicks_counts_ticks_witness:
  "msTicks ((SysTick_Handler ^^ 5) (hw_reset\<lparr>msTicks := 0xFFFFFFFE\<rparr>)) = 3
   \<and> unat (msTicks ((SysTick_Handler ^^ 5) (hw_reset\<lparr>msTicks := 0xFFFFFFFE\<rparr>))) = (4294967294 + 5) mod 2 ^ 32
   \<and> TxEmpty \<noteq> Tick \<and> msTicks (hw_event TxEmpty hw_boot) = msTicks hw_boot
   \<and> (\<exists>s'. main_iteration env_L5 (0, hw_boot) = Some (0, s') \<and> msTicks s' = 91
          \<and> msTicks s' = msTicks hw_boot + of_nat (ticks env_L5 (now hw_boot) (now s')))"
proof -
  let ?s = "hw_reset\<lparr>msTicks := 0xFFFFFFFE\<rparr>"
  let ?end = "hw_L\<lparr>msTicks := 91, USART_RDR := 0x0A, TIM2_CCR1 := 5,
      tx_log := L_prompt @ ''5'' @ [CHR 0x0A] @ CRLF @ ''LED brightness set to 5%'' @ CRLF,
      rx_log := ''L5'' @ [CHR 0x0A], now := 93\<rparr>"
  have m: "main_iteration env_L5 (0, hw_boot) = Some (0, ?end)"
    using main_is_L_command[OF run_poll_L(1,2)] run_L5 by simp
  have u: "unat (msTicks ?s) = 4294967294" by (simp add: hw_reset_def)
  from msTicks_counts_ticks[of ?s 5 TxEmpty 0 "CHR ''a''" env_L5 0 0 ?end]
  have a: "msTicks ((SysTick_Handler ^^ 5) ?s) = msTicks ?s + 5"
    "unat (msTicks ((SysTick_Handler ^^ 5) ?s)) = (unat (msTicks ?s) + 5) mod 2 ^ 32"
    by simp_all
  from msTicks_counts_ticks[of hw_boot 0 TxEmpty 0 "CHR ''a''" env_L5 0 0 ?end] m
  have b: "msTicks (hw_event TxEmpty hw_boot) = msTicks hw_boot"
    "msTicks ?end = msTicks hw_boot + of_nat (ticks env_L5 (now hw_boot) (now ?end))"
    by simp_all
  from a have "msTicks ((SysTick_Handler ^^ 5) ?s) = 3" by (simp add: hw_reset_def)
  with a(2) b m u show ?thesis by (simp add: hw_L_def)
qed

section \<open>Claims about the command interpreter\<close>



text \<open>
  C6. When the \<open>L\<close> command has collected no digit (it consumed nothing before the
  timeout, or the first byte it consumed was not a digit), it writes the line
  \<open>No digits received after L command\<close> after the prompt and the echo, and the duty
  cycle \<open>TIM2_CCR1\<close> is what it was: with \<open>idx = 0\<close> the code after the loop is the
  transmission of that line and nothing else. With ticks and the transmitter live the
  command returns; when moreover no byte arrives, it returns through the timeout with
  exactly that outcome.
\<close>

theorem no_digits_reported:
  "(\<forall>s' cs. L_command env s = Some s' \<and> rx_log s' = rx_log s @ cs
        \<and> (cs = [] \<or> \<not> is_digit (hd cs)) \<longrightarrow>
        TIM2_CCR1 s' = TIM2_CCR1 s
        \<and> tx_log s' = tx_log s @ L_prompt @ cs @ ''No digits received after L command'' @ CRLF)
   \<and> finish_L_command env (str, 0, s)
        = uart_send_string env (''No digits received after L command'' @ CRLF) s
   \<and> (tick_fair env \<and> txe_fair env \<longrightarrow> (\<exists>s'. L_command env s = Some s'))
   \<and> (rx_silent env \<and> tick_fair env \<and> txe_fair env \<and> USART_ISR s AND push_bit 5 1 = 0 \<longrightarrow>
        (\<exists>s'. L_command env s = Some s' \<and> rx_log s' = rx_log s \<and> TIM2_CCR1 s' = TIM2_CCR1 s
            \<and> tx_log s' = tx_log s @ L_prompt @ ''No digits received after L command'' @ CRLF))"
proof (intro conjI allI impI)
  fix s' cs
  assume a: "L_command env s = Some s' \<and> rx_log s' = rx_log s @ cs \<and> (cs = [] \<or> \<not> is_digit (hd cs))"
  then have p: "L_post env s s' (takeWhile is_digit cs) (dropWhile is_digit cs)"
    using L_command_consumed by blast
  from a have "takeWhile is_digit cs = []" "dropWhile is_digit cs = cs" by (cases cs; auto)+
  with p show "TIM2_CCR1 s' = TIM2_CCR1 s"
    and "tx_log s' = tx_log s @ L_prompt @ cs @ ''No digits received after L command'' @ CRLF"
    by (simp_all add: L_post_def)
next
  show "finish_L_command env (str, 0, s)
        = uart_send_string env (''No digits received after L command'' @ CRLF) s"
    by (rule finish_L_command_no_digits)
next
  assume "tick_fair env \<and> txe_fair env"
  then show "\<exists>s'. L_command env s = Some s'" using L_command_terminates by blast
next
  assume "rx_silent env \<and> tick_fair env \<and> txe_fair env \<and> USART_ISR s AND push_bit 5 1 = 0"
  then show "\<exists>s'. L_command env s = Some s' \<and> rx_log s' = rx_log s \<and> TIM2_CCR1 s' = TIM2_CCR1 s
            \<and> tx_log s' = tx_log s @ L_prompt @ ''No digits received after L command'' @ CRLF"
    using L_command_no_input by blast
qed

theorem no_digits_reported_witness:
  "tick_fair env_LX \<and> txe_fair env_LX \<and> \<not> is_digit (hd ''X'')
   \<and> (\<exists>s'. main_iteration env_LX (temp_reading_active_init, hw_boot) = Some (temp_reading_active_init, s')
         \<and> L_command env_LX hw_L = Some s' \<and> rx_log s' = rx_log hw_L @ ''X''
         \<and> TIM2_CCR1 s' = TIM2_CCR1 hw_L
         \<and> tx_log s' = tx_log hw_L @ L_prompt @ ''X'' @ ''No digits received after L command'' @ CRLF)
   \<and> rx_silent env_idle \<and> tick_fair env_idle \<and> txe_fair env_idle
   \<and> USART_ISR hw_L AND push_bit 5 1 = 0
   \<and> (\<exists>s'. L_command env_idle hw_L = Some s' \<and> rx_log s' = rx_log hw_L \<and> TIM2_CCR1 s' = 37
         \<and> tx_log s' = L_prompt @ ''No digits received after L command'' @ CRLF)"
proof -
  let ?end = "hw_L\<lparr>msTicks := 88, USART_RDR := 0x58,
      tx_log := L_prompt @ ''X'' @ ''No digits received after L command'' @ CRLF,
      rx_log := ''LX'', now := 90\<rparr>"
  note inst = no_digits_reported[of env_LX hw_L "[]"]
  have rx: "rx_log ?end = rx_log hw_L @ ''X''" by (simp add: hw_L_def)
  have nd: "\<not> is_digit (hd ''X'')" by (simp add: is_digit_iff)
  from inst run_LX rx nd have e: "TIM2_CCR1 ?end = TIM2_CCR1 hw_L
       \<and> tx_log ?end = tx_log hw_L @ L_prompt @ ''X'' @ ''No digits received after L command'' @ CRLF"
    by blast
  have m: "main_iteration env_LX (temp_reading_active_init, hw_boot) = Some (temp_reading_active_init, ?end)"
    using main_is_L_command[OF run_poll_L(5,6)] run_LX by (simp add: temp_reading_active_init_def)
  from e m run_LX rx have first: "\<exists>s'. main_iteration env_LX (temp_reading_active_init, hw_boot) = Some (temp_reading_active_init, s')
         \<and> L_command env_LX hw_L = Some s' \<and> rx_log s' = rx_log hw_L @ ''X''
         \<and> TIM2_CCR1 s' = TIM2_CCR1 hw_L
         \<and> tx_log s' = tx_log hw_L @ L_prompt @ ''X'' @ ''No digits received after L command'' @ CRLF"
    by blast
  from no_digits_reported[of env_idle hw_L "[]"] scenario_envs_idle run_steps(15)
  obtain s' where "L_command env_idle hw_L = Some s'" "rx_log s' = rx_log hw_L"
    "TIM2_CCR1 s' = TIM2_CCR1 hw_L"
    "tx_log s' = tx_log hw_L @ L_prompt @ ''No digits received after L command'' @ CRLF"
    by blast
  then have second: "\<exists>s'. L_command env_idle hw_L = Some s' \<and> rx_log s' = rx_log hw_L \<and> TIM2_CCR1 s' = 37
         \<and> tx_log s' = L_prompt @ ''No digits received after L command'' @ CRLF"
    by (intro exI[of _ s']) (simp add: hw_L_def)
  show ?thesis
    using scenario_envs_fair(5,6) nd first scenario_envs_idle run_steps(15) second
    by (intro conjI)
qed

text \<open>
  C7. When the \<open>L\<close> command has collected at least one digit, the digits it
  collected (at most two) are read as a decimal numeral, left to right; that value, at
  most 99, becomes the duty cycle, and the closing line is
  \<open>LED brightness set to <value>%\<close> between two line ends. The loop over the stored
  digits computes that value, which is what \<open>set_led_brightness\<close> receives.
\<close>

theorem digits_set_brightness:
  "(\<forall>s' cs. L_command env s = Some s' \<and> rx_log s' = rx_log s @ cs
        \<and> cs \<noteq> [] \<and> is_digit (hd cs) \<longrightarrow>
        length (takeWhile is_digit cs) \<le> 2
        \<and> decimal_value (takeWhile is_digit cs) \<le> 99
        \<and> TIM2_CCR1 s' = of_nat (decimal_value (takeWhile is_digit cs))
        \<and> tx_log s' = tx_log s @ L_prompt @ cs @ CRLF @ ''LED brightness set to ''
              @ fmt_u (decimal_value (takeWhile is_digit cs)) @ ''%'' @ CRLF)
   \<and> (list_all is_digit ds \<and> 1 \<le> length ds \<and> length ds \<le> 2 \<longrightarrow>
        parse_brightness (store [x, y, z] 0 ds) (length ds) = of_nat (decimal_value ds)
        \<and> finish_L_command env (store [x, y, z] 0 ds, length ds, s)
            = uart_send_string env
                (CRLF @ ''LED brightness set to '' @ fmt_u (decimal_value ds) @ ''%'' @ CRLF)
                (set_led_brightness (of_nat (decimal_value ds)) s))
   \<and> (tick_fair env \<and> txe_fair env \<longrightarrow> (\<exists>s'. L_command env s = Some s'))"
proof (intro conjI allI impI)
  fix s' cs
  assume a: "L_command env s = Some s' \<and> rx_log s' = rx_log s @ cs \<and> cs \<noteq> [] \<and> is_digit (hd cs)"
  let ?ds = "takeWhile is_digit cs"
  from a have p: "L_post env s s' ?ds (dropWhile is_digit cs)"
    using L_command_consumed by blast
  from a have ne: "?ds \<noteq> []" by (cases cs) auto
  then have one: "1 \<le> length ?ds" by (cases ?ds) auto
  from p show le: "length ?ds \<le> 2" by (simp add: L_post_def)
  from p have "list_all is_digit ?ds" by (simp add: L_post_def)
  from parse_brightness_digits[OF this one le] show "decimal_value ?ds \<le> 99" by simp
  from p ne show "TIM2_CCR1 s' = of_nat (decimal_value ?ds)" by (simp add: L_post_def)
  have "?ds @ dropWhile is_digit cs = cs" by simp
  with p ne show "tx_log s' = tx_log s @ L_prompt @ cs @ CRLF @ ''LED brightness set to ''
              @ fmt_u (decimal_value ?ds) @ ''%'' @ CRLF"
    by (simp add: L_post_def del: takeWhile_dropWhile_id)
next
  assume a: "list_all is_digit ds \<and> 1 \<le> length ds \<and> length ds \<le> 2"
  then show "parse_brightness (store [x, y, z] 0 ds) (length ds) = of_nat (decimal_value ds)"
    using parse_brightness_digits by blast
  from a show "finish_L_command env (store [x, y, z] 0 ds, length ds, s)
            = uart_send_string env
                (CRLF @ ''LED brightness set to '' @ fmt_u (decimal_value ds) @ ''%'' @ CRLF)
                (set_led_brightness (of_nat (decimal_value ds)) s)"
    using finish_L_command_digits_eq by blast
next
  assume "tick_fair env \<and> txe_fair env"
  then show "\<exists>s'. L_command env s = Some s'" using L_command_terminates by blast
qed

theorem digits_set_brightness_witness:
  "tick_fair env_L5 \<and> txe_fair env_L5 \<and> is_digit (hd [CHR ''5'', CHR 0x0A])
   \<and> list_all is_digit ''5'' \<and> parse_brightness (store [CHR 0x00, CHR 0x00, CHR 0x00] 0 ''5'') 1 = 5
   \<and> (\<exists>s'. main_iteration env_L5 (temp_reading_active_init, hw_boot) = Some (temp_reading_active_init, s')
         \<and> L_command env_L5 hw_L = Some s' \<and> rx_log s' = rx_log hw_L @ [CHR ''5'', CHR 0x0A]
         \<and> TIM2_CCR1 s' = 5
         \<and> tx_log s' = tx_log hw_L @ L_prompt @ [CHR ''5'', CHR 0x0A] @ CRLF
               @ ''LED brightness set to 5%'' @ CRLF)"
proof -
  let ?end = "hw_L\<lparr>msTicks := 91, USART_RDR := 0x0A, TIM2_CCR1 := 5,
      tx_log := L_prompt @ ''5'' @ [CHR 0x0A] @ CRLF @ ''LED brightness set to 5%'' @ CRLF,
      rx_log := ''L5'' @ [CHR 0x0A], now := 93\<rparr>"
  note inst = digits_set_brightness[of env_L5 hw_L "''5''" "CHR 0x00" "CHR 0x00" "CHR 0x00"]
  have rx: "rx_log ?end = rx_log hw_L @ [CHR ''5'', CHR 0x0A]" by (simp add: hw_L_def)
  have d: "is_digit (hd [CHR ''5'', CHR 0x0A])" "list_all is_digit ''5''"
    "takeWhile is_digit [CHR ''5'', CHR 0x0A] = ''5''" "decimal_value ''5'' = 5"
    by (simp_all add: is_digit_iff decimal_value_def)
  from inst d(2) have p: "parse_brightness (store [CHR 0x00, CHR 0x00, CHR 0x00] 0 ''5'') 1 = 5"
    by (simp add: d(4))
  from inst run_L5 rx d(1) have "TIM2_CCR1 ?end = of_nat (decimal_value (takeWhile is_digit [CHR ''5'', CHR 0x0A]))
       \<and> tx_log ?end = tx_log hw_L @ L_prompt @ [CHR ''5'', CHR 0x0A] @ CRLF @ ''LED brightness set to ''
              @ fmt_u (decimal_value (takeWhile is_digit [CHR ''5'', CHR 0x0A])) @ ''%'' @ CRLF"
    by blast
  then have e: "TIM2_CCR1 ?end = 5 \<and> tx_log ?end = tx_log hw_L @ L_prompt @ [CHR ''5'', CHR 0x0A] @ CRLF
               @ ''LED brightness set to 5%'' @ CRLF"
    by (simp only: d fmt_u_99) simp
  have "main_iteration env_L5 (temp_reading_active_init, hw_boot) = Some (temp_reading_active_init, ?end)"
    using main_is_L_command[OF run_poll_L(1,2)] run_L5 by (simp add: temp_reading_active_init_def)
  with e p d(1,2) show ?thesis using run_L5 rx scenario_envs_fair(1,2) by blast
qed





text \<open>
  C10. Whatever the collection loop returns, started on the empty array, it has stored
  at most two digits and the value parsed from them is at most 99: the call of
  \<open>set_led_brightness\<close> from the interpreter never takes the clamping branch.
\<close>

theorem interpreter_brightness_below_100:
  "\<forall>str' idx' s'. collect_digits env start ([CHR 0x00, CHR 0x00, CHR 0x00], 0, s) = Some (str', idx', s') \<longrightarrow>
      idx' \<le> 2 \<and> parse_brightness str' idx' \<le> 99
      \<and> set_led_brightness (parse_brightness str' idx') s'
           = s'\<lparr>TIM2_CCR1 := ucast (parse_brightness str' idx')\<rparr>"
proof (intro allI impI)
  fix str' idx' s'
  let ?init = "[CHR 0x00, CHR 0x00, CHR 0x00]"
  assume "collect_digits env start (?init, 0, s) = Some (str', idx', s')"
  from collect_digits_exit[OF this] obtain ds t where
    "collect_post env start (?init, 0, s) (str', idx', s') ds t" by blast
  then have p: "list_all is_digit ds" "idx' = length ds" "idx' \<le> 2" "str' = store ?init 0 ds"
    by (simp_all add: collect_post_def)
  have le: "parse_brightness str' idx' \<le> 99"
  proof (cases "ds = []")
    case True
    with p show ?thesis by (simp add: parse_brightness_def)
  next
    case False
    then have "1 \<le> length ds" by (cases ds) auto
    from parse_brightness_digits[OF p(1) this] p(2,3)
    have "parse_brightness (store ?init 0 ds) (length ds) = of_nat (decimal_value ds)"
      and v: "decimal_value ds \<le> 99" by simp_all
    moreover from v have "unat (of_nat (decimal_value ds) :: u8) = decimal_value ds"
      by (simp add: unat_of_nat)
    ultimately show ?thesis using p(2,4) by (simp add: word_le_nat_alt)
  qed
  then have "\<not> parse_brightness str' idx' > 99" by (simp add: not_less)
  with le p(3) show "idx' \<le> 2 \<and> parse_brightness str' idx' \<le> 99
      \<and> set_led_brightness (parse_brightness str' idx') s'
           = s'\<lparr>TIM2_CCR1 := ucast (parse_brightness str' idx')\<rparr>"
    by (simp add: set_led_brightness_def Let_def)
qed

theorem interpreter_brightness_below_100_witness:
  "\<exists>s'. collect_digits env_L99 0 ([CHR 0x00, CHR 0x00, CHR 0x00], 0, hw_L)
           = Some ([CHR ''9'', CHR ''9'', CHR 0x00], 2, s')
        \<and> parse_brightness [CHR ''9'', CHR ''9'', CHR 0x00] 2 = 99
        \<and> parse_brightness [CHR ''9'', CHR ''9'', CHR 0x00] 2 \<le> 99
        \<and> set_led_brightness (parse_brightness [CHR ''9'', CHR ''9'', CHR 0x00] 2) s'
             = s'\<lparr>TIM2_CCR1 := 99\<rparr>"
proof -
  let ?end = "hw_L\<lparr>msTicks := 69, USART_RDR := 0x39, tx_log := ''99'', rx_log := ''L99'', now := 71\<rparr>"
  have v: "parse_brightness [CHR ''9'', CHR ''9'', CHR 0x00] 2 = 99"
    by (simp add: parse_brightness_def numeral_2_eq_2)
  from interpreter_brightness_below_100[of env_L99 0 hw_L] run_collect(3)
  have "parse_brightness [CHR ''9'', CHR ''9'', CHR 0x00] 2 \<le> 99
      \<and> set_led_brightness (parse_brightness [CHR ''9'', CHR ''9'', CHR 0x00] 2) ?end
           = ?end\<lparr>TIM2_CCR1 := ucast (parse_brightness [CHR ''9'', CHR ''9'', CHR 0x00] 2)\<rparr>"
    by blast
  with v run_collect(3) show ?thesis by (intro exI[of _ ?end]) simp
qed

end
